theory Spec2Isabelle
  imports Main "HOL-Library.Word"
begin

unbundle bit_operations_syntax

section \<open>The byte reader\<close>

text \<open>
  A file's content is a list of bytes. Isabelle's \<open>char\<close> is exactly one byte, so a
  \<open>QByteArray\<close> is a \<open>string\<close> and the zero byte is \<open>CHR 0x00\<close>.
\<close>

type_synonym QByteArray = string
type_synonym quint16 = "16 word"
type_synonym quint32 = "32 word"
type_synonym quint64 = "64 word"

text \<open>
  \<open>Reader\<close> wraps the opened file: the device's bytes, the device's position and the
  byte order of the fixed-width reads.
\<close>

record Reader =
  dev :: QByteArray
  pos :: nat
  littleEndian :: bool

text \<open>
  Modelled from the spec: the class \<open>Reader\<close> (Reader.h, Reader.cpp), which MachO.cpp
  uses and whose source is not available. The spec describes it as a
  positionable byte source with switchable endianness and fixed-width integer and raw
  reads, where every fixed-width read can fail when the stream is exhausted before the
  requested width. \<open>le0\<close> is the byte order a newly constructed reader starts with.
\<close>

definition newReader :: "bool \<Rightarrow> QByteArray \<Rightarrow> Reader" where
  "newReader le0 f = \<lparr>dev = f, pos = 0, littleEndian = le0\<rparr>"

definition seek :: "nat \<Rightarrow> Reader \<Rightarrow> Reader" where
  "seek p r = r\<lparr>pos := p\<rparr>"

definition setLittleEndian :: "bool \<Rightarrow> Reader \<Rightarrow> Reader" where
  "setLittleEndian b r = r\<lparr>littleEndian := b\<rparr>"

text \<open>
  Modelled from the spec: a raw read returns at most \<open>n\<close> bytes from the position on,
  fewer when the stream ends first, and moves the position past the bytes returned.
\<close>

definition read :: "nat \<Rightarrow> Reader \<Rightarrow> QByteArray \<times> Reader" where
  "read n r =
     (let bs = take n (drop (pos r) (dev r))
      in (bs, r\<lparr>pos := pos r + length bs\<rparr>))"

text \<open>The value of a byte sequence, least significant byte first.\<close>

fun wordLE :: "QByteArray \<Rightarrow> 'a::len word" where
  "wordLE [] = 0"
| "wordLE (c # cs) = of_char c + 256 * wordLE cs"

text \<open>
  Modelled from the spec: a fixed-width read of \<open>num\<close> bytes. It fails (the \<open>ok\<close>
  flag of the source, here \<open>None\<close>) when fewer than \<open>num\<close> bytes are left; otherwise
  the bytes are combined in the reader's byte order.
\<close>

definition getUInt :: "nat \<Rightarrow> Reader \<Rightarrow> 'a::len word option \<times> Reader" where
  "getUInt num r =
     (let (parts, r') = read num r
      in if length parts < num then (None, r')
         else (Some (wordLE (if littleEndian r then parts else rev parts)), r'))"

definition getUChar :: "Reader \<Rightarrow> 8 word option \<times> Reader" where
  "getUChar = getUInt 1"

definition getUInt16 :: "Reader \<Rightarrow> quint16 option \<times> Reader" where
  "getUInt16 = getUInt 2"

definition getUInt32 :: "Reader \<Rightarrow> quint32 option \<times> Reader" where
  "getUInt32 = getUInt 4"

definition getUInt64 :: "Reader \<Rightarrow> quint64 option \<times> Reader" where
  "getUInt64 = getUInt 8"

section \<open>The data model\<close>

text \<open>
  Modelled from the spec: the enumerations \<open>CpuType\<close>, \<open>FileType\<close> and
  \<open>SectionType\<close> and the classes \<open>Section\<close>, \<open>SymbolEntry\<close>, \<open>SymbolTable\<close> and
  \<open>BinaryObject\<close>, declared in headers whose source is not available.
  The constructors are the enumerators MachO.cpp names; the record fields are named
  after the accessors MachO.cpp calls and hold the values it passes to the constructors.
\<close>

datatype CpuType =
  X86 | X86_64 | HPPA | ARM | SPARC | I860 | PowerPC | PowerPC_64
| I386 | I486 | I486_SX | Pentium | PentiumPro | PentiumII_M3 | PentiumII_M5
| Celeron | CeleronMobile | Pentium_3 | Pentium_3_M | Pentium_3_Xeon | Pentium_M
| Pentium_4 | Pentium_4_M | Itanium | Itanium_2 | Xeon | Xeon_MP

datatype FileType = Object | Execute | Core | Preload | Dylib | Dylinker | Bundle

datatype SectionType =
  Text | SymbolStubs | CString | String | FuncStarts | CodeSig | Symbols | DynSymbols

record Section =
  getType :: SectionType
  getName :: string
  getAddress :: quint64
  getSize :: quint64
  getOffset :: quint32
  getData :: QByteArray

text \<open>\<open>new Section(type, name, addr, size, offset)\<close>: the content is empty until loaded.\<close>

definition newSection ::
  "SectionType \<Rightarrow> string \<Rightarrow> quint64 \<Rightarrow> quint64 \<Rightarrow> quint32 \<Rightarrow> Section" where
  "newSection t n addr sz off =
     \<lparr>getType = t, getName = n, getAddress = addr, getSize = sz, getOffset = off,
      getData = []\<rparr>"

record SymbolEntry =
  getIndex :: quint32
  getString :: string
  getValue :: quint64

text \<open>\<open>SymbolEntry(index, value)\<close>: the name is empty until resolved.\<close>

definition newSymbolEntry :: "quint32 \<Rightarrow> quint64 \<Rightarrow> SymbolEntry" where
  "newSymbolEntry index val = \<lparr>getIndex = index, getString = [], getValue = val\<rparr>"

type_synonym SymbolTable = "SymbolEntry list"

record BinaryObject =
  getSystemBits :: nat
  isLittleEndian :: bool
  getCpuType :: CpuType
  getCpuSubType :: CpuType
  getFileType :: FileType
  getSections :: "Section list"
  getSymbolTable :: SymbolTable
  getDynSymbolTable :: SymbolTable

definition addSection :: "Section \<Rightarrow> BinaryObject \<Rightarrow> BinaryObject" where
  "addSection sec b = b\<lparr>getSections := getSections b @ [sec]\<rparr>"

text \<open>
  Modelled from the spec: \<open>BinaryObject::getSection(type)\<close> looks a section up by its
  type among the sections in insertion order; the first one of the type is returned, and
  no section of the type is the null pointer of the source.
\<close>

definition getSection :: "SectionType \<Rightarrow> BinaryObject \<Rightarrow> Section option" where
  "getSection t b = find (\<lambda>sec. getType sec = t) (getSections b)"

text \<open>
  The conversion of raw bytes to a \<open>QString\<close> (the constructor from a
  \<open>QByteArray\<close> and \<open>QString::fromUtf8\<close>) stops at the first zero byte. The model
  keeps the bytes before it as they are; it does not decode multi-byte UTF-8 sequences.
\<close>

definition QString :: "QByteArray \<Rightarrow> string" where
  "QString a = takeWhile (\<lambda>c. c \<noteq> CHR 0x00) a"

section \<open>Decoding steps\<close>

text \<open>
  A decoding step runs on the reader and either stops the function or yields a value
  and the reader after it. \<open>ReadFailed\<close> is the \<open>return false\<close> that follows a
  fixed-width read whose \<open>ok\<close> flag is false, \<open>ProcessExit\<close> is the call of
  \<open>exit(0)\<close>, and \<open>OutOfBounds\<close> is an access to a byte array at a negative position,
  for which C++ defines no result.
\<close>

datatype error = ReadFailed | ProcessExit | OutOfBounds

type_synonym 'a step = "Reader \<Rightarrow> error + 'a \<times> Reader"

definition ret :: "'a \<Rightarrow> 'a step" where
  "ret x r = Inr (x, r)"

definition andThen :: "'a step \<Rightarrow> ('a \<Rightarrow> 'b step) \<Rightarrow> 'b step" where
  "andThen m f r = (case m r of Inl e \<Rightarrow> Inl e | Inr (x, r') \<Rightarrow> f x r')"

text \<open>\<open>v = r.getUInt32(&ok); if (!ok) return false;\<close>\<close>

definition checked :: "(Reader \<Rightarrow> 'a option \<times> Reader) \<Rightarrow> 'a step" where
  "checked g r = (case g r of (None, r') \<Rightarrow> Inl ReadFailed | (Some v, r') \<Rightarrow> Inr (v, r'))"

text \<open>A read whose outcome is not tested: \<open>r.getUInt32();\<close> and \<open>r.read(n)\<close>.\<close>

definition untested :: "(Reader \<Rightarrow> 'a \<times> Reader) \<Rightarrow> 'a step" where
  "untested g r = Inr (g r)"

text \<open>\<open>r.seek(p)\<close> and \<open>r.setLittleEndian(b)\<close>.\<close>

definition modify :: "(Reader \<Rightarrow> Reader) \<Rightarrow> unit step" where
  "modify h r = Inr ((), h r)"

definition fail :: "error \<Rightarrow> 'a step" where
  "fail e r = Inl e"

text \<open>\<open>n\<close> consecutive 32-bit fields that are read, tested and not kept.\<close>

fun skipUInt32 :: "nat \<Rightarrow> unit step" where
  "skipUInt32 0 = ret ()"
| "skipUInt32 (Suc n) = andThen (checked getUInt32) (\<lambda>_. skipUInt32 n)"

text \<open>
  A field that is 32 bits wide in a 32-bit slice and 64 bits wide otherwise, kept in a
  \<open>quint64\<close> variable.
\<close>

definition getAddr :: "nat \<Rightarrow> quint64 step" where
  "getAddr systemBits =
     (if systemBits = 32 then andThen (checked getUInt32) (\<lambda>v. ret (ucast v))
      else checked getUInt64)"

section \<open>Detection\<close>

text \<open>
  \<open>MachO::detect\<close>. The file is \<open>None\<close> when it cannot be opened for reading.
\<close>

definition detect :: "bool \<Rightarrow> QByteArray option \<Rightarrow> bool" where
  "detect le0 file =
     (case file of
        None \<Rightarrow> False
      | Some f \<Rightarrow>
          (case getUInt32 (newReader le0 f) of
             (None, r) \<Rightarrow> False
           | (Some magic, r) \<Rightarrow>
               magic = 0xFEEDFACE \<or> magic = 0xFEEDFACF \<or> magic = 0xECAFDEEF \<or>
               magic = 0xFCAFDEEF \<or> magic = 0xCAFEBABE \<or> magic = 0xBEBAFECA))"

section \<open>Decoding one slice\<close>

subsection \<open>The file header\<close>

text \<open>Types in /usr/local/mach/machine.h; an unlisted value keeps the initial value.\<close>

definition cpuTypeOf :: "quint32 \<Rightarrow> CpuType" where
  "cpuTypeOf cputype =
     (if cputype = 7 then X86
      else if cputype = 7 + 0x01000000 then X86_64
      else if cputype = 11 then HPPA
      else if cputype = 12 then ARM
      else if cputype = 14 then SPARC
      else if cputype = 15 then I860
      else if cputype = 18 then PowerPC
      else if cputype = 18 + 0x01000000 then PowerPC_64
      else X86)"

definition cpuSubTypeOf :: "quint32 \<Rightarrow> CpuType" where
  "cpuSubTypeOf cpusubtype =
     (if cpusubtype = 3 then I386
      else if cpusubtype = 4 then I486
      else if cpusubtype = 4 + push_bit 4 8 then I486_SX
      else if cpusubtype = 5 then Pentium
      else if cpusubtype = 6 + push_bit 4 1 then PentiumPro
      else if cpusubtype = 6 + push_bit 4 3 then PentiumII_M3
      else if cpusubtype = 6 + push_bit 4 5 then PentiumII_M5
      else if cpusubtype = 7 + push_bit 4 6 then Celeron
      else if cpusubtype = 7 + push_bit 4 7 then CeleronMobile
      else if cpusubtype = 8 then Pentium_3
      else if cpusubtype = 8 + push_bit 4 1 then Pentium_3_M
      else if cpusubtype = 8 + push_bit 4 2 then Pentium_3_Xeon
      else if cpusubtype = 9 then Pentium_M
      else if cpusubtype = 10 then Pentium_4
      else if cpusubtype = 10 + push_bit 4 1 then Pentium_4_M
      else if cpusubtype = 11 then Itanium
      else if cpusubtype = 11 + push_bit 4 1 then Itanium_2
      else if cpusubtype = 12 then Xeon
      else if cpusubtype = 12 + push_bit 4 1 then Xeon_MP
      else I386)"

definition fileTypeOf :: "quint32 \<Rightarrow> FileType" where
  "fileTypeOf filetype =
     (if filetype = 1 then Object
      else if filetype = 2 then Execute
      else if filetype = 4 then Core
      else if filetype = 5 then Preload
      else if filetype = 6 then Dylib
      else if filetype = 7 then Dylinker
      else if filetype = 8 then Bundle
      else Object)"

text \<open>
  The bit width and the byte order that the magic number selects. The variables start
  as 32 and true, and a magic number that is none of the four leaves them so.
\<close>

definition systemBitsOf :: "quint32 \<Rightarrow> nat" where
  "systemBitsOf magic =
     (if magic = 0xFEEDFACE then 32
      else if magic = 0xFEEDFACF then 64
      else if magic = 0xECAFDEEF then 32
      else if magic = 0xFCAFDEEF then 64
      else 32)"

definition littleEndianOf :: "quint32 \<Rightarrow> bool" where
  "littleEndianOf magic =
     (if magic = 0xFEEDFACE then True
      else if magic = 0xFEEDFACF then True
      else if magic = 0xECAFDEEF then False
      else if magic = 0xFCAFDEEF then False
      else True)"

text \<open>
  The local variables of \<open>parseHeader\<close> that the load commands change: the object under
  construction, and the offsets and counts of the two symbol tables.
\<close>

record Locals =
  binaryObject :: BinaryObject
  symoff :: quint32
  symnum :: quint32
  indirsymoff :: quint32
  indirsymnum :: quint32

text \<open>
  From the seek to the slice's offset up to the start of the load commands. The result
  is the state of the local variables there and \<open>ncmds\<close>.
\<close>

definition readHeader :: "quint32 \<Rightarrow> (Locals \<times> quint32) step" where
  "readHeader offset =
     andThen (modify (seek (unat offset))) (\<lambda>_.
     andThen (modify (setLittleEndian True)) (\<lambda>_.
     andThen (checked getUInt32) (\<lambda>magic.
     andThen (modify (setLittleEndian (littleEndianOf magic))) (\<lambda>_.
     andThen (checked getUInt32) (\<lambda>cputype.
     andThen (checked getUInt32) (\<lambda>cpusubtype.
     andThen (checked getUInt32) (\<lambda>filetype.
     andThen (checked getUInt32) (\<lambda>ncmds.
     andThen (checked getUInt32) (\<lambda>sizeofcmds.
     andThen (checked getUInt32) (\<lambda>flags.
     andThen (if systemBitsOf magic = 64 then andThen (untested getUInt32) (\<lambda>_. ret ())
              else ret ()) (\<lambda>_.
     ret (\<lparr>binaryObject =
             \<lparr>getSystemBits = systemBitsOf magic,
              isLittleEndian = littleEndianOf magic,
              getCpuType = cpuTypeOf cputype,
              getCpuSubType =
                cpuSubTypeOf (if systemBitsOf magic = 64 then cpusubtype - 0x80000000
                              else cpusubtype),
              getFileType = fileTypeOf filetype,
              getSections = [],
              getSymbolTable = [],
              getDynSymbolTable = []\<rparr>,
           symoff = 0, symnum = 0, indirsymoff = 0, indirsymnum = 0\<rparr>,
          ncmds))))))))))))"

subsection \<open>Load commands\<close>

text \<open>The sections of a segment that are kept (\<open>Store needed sections\<close>).\<close>

definition storeSection ::
  "quint32 \<Rightarrow> string \<Rightarrow> string \<Rightarrow> quint64 \<Rightarrow> quint64 \<Rightarrow> quint32 \<Rightarrow> BinaryObject
     \<Rightarrow> BinaryObject" where
  "storeSection offset secname segname addr secsize secfileoff b =
     (if segname = ''__TEXT'' then
        (if secname = ''__text'' then
           addSection (newSection Text ''Program'' addr secsize (offset + secfileoff)) b
         else if secname = ''__symbol_stub'' \<or> secname = ''__stubs'' then
           addSection (newSection SymbolStubs ''Symbol Stubs'' addr secsize
                         (offset + secfileoff)) b
         else if secname = ''__cstring'' then
           addSection (newSection CString ''C-Strings'' addr secsize (offset + secfileoff)) b
         else if secname = ''__objc_methname'' then
           addSection (newSection CString ''ObjC Method Names'' addr secsize
                         (offset + secfileoff)) b
         else b)
      else b)"

text \<open>One pass of the loop over the sections of a segment.\<close>

definition readSection :: "quint32 \<Rightarrow> nat \<Rightarrow> BinaryObject \<Rightarrow> BinaryObject step" where
  "readSection offset systemBits b =
     andThen (untested (read 16)) (\<lambda>secname.
     andThen (untested (read 16)) (\<lambda>segname.
     andThen (getAddr systemBits) (\<lambda>addr.
     andThen (getAddr systemBits) (\<lambda>secsize.
     andThen (checked getUInt32) (\<lambda>secfileoff.
     andThen (skipUInt32 4) (\<lambda>_.
     andThen (untested getUInt32) (\<lambda>_.
     andThen (untested getUInt32) (\<lambda>_.
     andThen (if systemBits = 64 then andThen (untested getUInt32) (\<lambda>_. ret ())
              else ret ()) (\<lambda>_.
     ret (storeSection offset (QString secname) (QString segname) addr secsize
            secfileoff b))))))))))"

fun readSections :: "quint32 \<Rightarrow> nat \<Rightarrow> nat \<Rightarrow> BinaryObject \<Rightarrow> BinaryObject step" where
  "readSections offset systemBits 0 b = ret b"
| "readSections offset systemBits (Suc n) b =
     andThen (readSection offset systemBits b) (readSections offset systemBits n)"

text \<open>LC_SEGMENT or LC_SEGMENT_64\<close>

definition lcSegment :: "quint32 \<Rightarrow> nat \<Rightarrow> Locals \<Rightarrow> Locals step" where
  "lcSegment offset systemBits st =
     andThen (untested (read 16)) (\<lambda>name.
     andThen (getAddr systemBits) (\<lambda>vmaddr.
     andThen (getAddr systemBits) (\<lambda>vmsize.
     andThen (getAddr systemBits) (\<lambda>fileoff.
     andThen (getAddr systemBits) (\<lambda>filesize.
     andThen (skipUInt32 2) (\<lambda>_.
     andThen (checked getUInt32) (\<lambda>nsects.
     andThen (skipUInt32 1) (\<lambda>_.
     andThen (readSections offset systemBits (unat nsects) (binaryObject st)) (\<lambda>b.
     ret (st\<lparr>binaryObject := b\<rparr>))))))))))"

text \<open>LC_SYMTAB\<close>

definition lcSymtab :: "quint32 \<Rightarrow> Locals \<Rightarrow> Locals step" where
  "lcSymtab offset st =
     andThen (checked getUInt32) (\<lambda>symoff'.
     andThen (checked getUInt32) (\<lambda>symnum'.
     andThen (checked getUInt32) (\<lambda>stroff.
     andThen (checked getUInt32) (\<lambda>strsize.
     ret (st\<lparr>binaryObject :=
                 addSection (newSection String ''String Table'' (ucast stroff)
                               (ucast strsize) (offset + stroff)) (binaryObject st),
              symoff := symoff', symnum := symnum'\<rparr>)))))"

text \<open>LC_DYSYMTAB\<close>

definition lcDysymtab :: "Locals \<Rightarrow> Locals step" where
  "lcDysymtab st =
     andThen (skipUInt32 12) (\<lambda>_.
     andThen (checked getUInt32) (\<lambda>indirsymoff'.
     andThen (checked getUInt32) (\<lambda>indirsymnum'.
     andThen (skipUInt32 4) (\<lambda>_.
     ret (st\<lparr>indirsymoff := indirsymoff', indirsymnum := indirsymnum'\<rparr>)))))"

text \<open>LC_FUNCTION_STARTS, LC_DYLIB_CODE_SIGN_DRS, LC_SEGMENT_SPLIT_INFO or LC_CODE_SIGNATURE\<close>

definition lcLinkedit :: "quint32 \<Rightarrow> quint32 \<Rightarrow> Locals \<Rightarrow> Locals step" where
  "lcLinkedit offset type st =
     andThen (checked getUInt32) (\<lambda>off.
     andThen (checked getUInt32) (\<lambda>siz.
     ret (if type = 0x26 then
            st\<lparr>binaryObject :=
                 addSection (newSection FuncStarts ''Function Starts'' (ucast off)
                               (ucast siz) (offset + off)) (binaryObject st)\<rparr>
          else if type = 0x1D then
            st\<lparr>binaryObject :=
                 addSection (newSection CodeSig ''Code Signature'' (ucast off)
                               (ucast siz) (offset + off)) (binaryObject st)\<rparr>
          else st)))"

text \<open>
  A path name at the end of a command: the rest of the command, \<open>cmdsize - off\<close> bytes
  in 32-bit arithmetic, is read and dropped.
\<close>

definition readName :: "quint32 \<Rightarrow> quint32 \<Rightarrow> unit step" where
  "readName cmdsize off = andThen (untested (read (unat (cmdsize - off)))) (\<lambda>_. ret ())"

text \<open>
  One pass of the loop over the load commands: the type, the size and the data. A type
  that no branch names ends the process.
\<close>

definition loadCommand :: "quint32 \<Rightarrow> nat \<Rightarrow> Locals \<Rightarrow> Locals step" where
  "loadCommand offset systemBits st =
     andThen (checked getUInt32) (\<lambda>type.
     andThen (checked getUInt32) (\<lambda>cmdsize.
       if type = 1 \<or> type = 25 then lcSegment offset systemBits st
       else if type = 0x22 \<or> type = 0x22 OR 0x80000000 then
         andThen (skipUInt32 10) (\<lambda>_. ret st)
       else if type = 2 then lcSymtab offset st
       else if type = 0xB then lcDysymtab st
       else if type = 0xC \<or> type = 0xD \<or> type = 0x18 + 0x80000000 then
         andThen (checked getUInt32) (\<lambda>liboffset.
         andThen (skipUInt32 3) (\<lambda>_.
         andThen (readName cmdsize liboffset) (\<lambda>_. ret st)))
       else if type = 0xE \<or> type = 0x27 then
         andThen (checked getUInt32) (\<lambda>noffset.
         andThen (readName cmdsize noffset) (\<lambda>_. ret st))
       else if type = 0x1B then
         andThen (untested (read 16)) (\<lambda>_. ret st)
       else if type = 0x24 then
         andThen (skipUInt32 2) (\<lambda>_. ret st)
       else if type = 0x2A then
         andThen (checked getUInt64) (\<lambda>_. ret st)
       else if type = 0x28 OR 0x80000000 then
         andThen (checked getUInt64) (\<lambda>_.
         andThen (checked getUInt64) (\<lambda>_. ret st))
       else if type = 0x26 \<or> type = 0x2B \<or> type = 0x1E \<or> type = 0x1D then
         lcLinkedit offset type st
       else if type = 0x29 then
         andThen (checked getUInt32) (\<lambda>_.
         andThen (checked getUInt16) (\<lambda>_.
         andThen (checked getUInt16) (\<lambda>_. ret st)))
       else if type = 0x4 \<or> type = 0x5 then
         andThen (checked getUInt32) (\<lambda>flavor.
         andThen (checked getUInt32) (\<lambda>count.
         andThen (untested (read (unat (flavor * count)))) (\<lambda>_. ret st)))
       else if type = 0x1C + 0x80000000 then
         andThen (checked getUInt32) (\<lambda>off.
         andThen (readName cmdsize off) (\<lambda>_. ret st))
       else fail ProcessExit))"

text \<open>
  The loop \<open>for (int i = 0; i < ncmds; i++)\<close>, by the number of passes left. The
  comparison is unsigned, so the loop makes \<open>ncmds\<close> passes; the loops over the sections
  and over the entries of the symbol tables are written and modelled in the same way.
\<close>

fun loadCommands :: "quint32 \<Rightarrow> nat \<Rightarrow> nat \<Rightarrow> Locals \<Rightarrow> Locals step" where
  "loadCommands offset systemBits 0 st = ret st"
| "loadCommands offset systemBits (Suc n) st =
     andThen (loadCommand offset systemBits st) (loadCommands offset systemBits n)"

subsection \<open>The symbol tables\<close>

definition getPos :: "nat step" where
  "getPos = untested (\<lambda>r. (pos r, r))"

text \<open>
  One entry of the symbol table (/usr/include/macho/nlist.h). The accumulator is the
  table read so far and \<open>symsize\<close>.
\<close>

definition readSymbol :: "nat \<Rightarrow> SymbolTable \<times> quint32 \<Rightarrow> (SymbolTable \<times> quint32) step" where
  "readSymbol systemBits acc =
     andThen getPos (\<lambda>pos0.
     andThen (checked getUInt32) (\<lambda>index.
     andThen (checked getUChar) (\<lambda>_.
     andThen (checked getUChar) (\<lambda>_.
     andThen (checked getUInt16) (\<lambda>_.
     andThen (getAddr systemBits) (\<lambda>val.
     andThen getPos (\<lambda>pos1.
     ret (fst acc @ [newSymbolEntry index val], snd acc + of_nat (pos1 - pos0)))))))))"

fun readSymbols :: "nat \<Rightarrow> nat \<Rightarrow> SymbolTable \<times> quint32 \<Rightarrow> (SymbolTable \<times> quint32) step" where
  "readSymbols systemBits 0 acc = ret acc"
| "readSymbols systemBits (Suc n) acc =
     andThen (readSymbol systemBits acc) (readSymbols systemBits n)"

text \<open>\<open>Parse symbol table if found\<close>: the table and the object with its section.\<close>

definition readSymbolTable :: "quint32 \<Rightarrow> nat \<Rightarrow> Locals \<Rightarrow> (SymbolTable \<times> BinaryObject) step" where
  "readSymbolTable offset systemBits st =
     (if symnum st > 0 then
        andThen (modify (seek (unat (symoff st)))) (\<lambda>_.
        andThen (readSymbols systemBits (unat (symnum st)) ([], 0)) (\<lambda>(symTable, symsize).
        ret (symTable,
             addSection (newSection Symbols ''Symbol Table'' (ucast (symoff st))
                           (ucast symsize) (offset + symoff st)) (binaryObject st))))
      else ret ([], binaryObject st))"

text \<open>One entry of the indirect symbol table: an index into the symbol table.\<close>

definition readDynSymbol :: "SymbolTable \<times> quint32 \<Rightarrow> (SymbolTable \<times> quint32) step" where
  "readDynSymbol acc =
     andThen getPos (\<lambda>pos0.
     andThen (checked getUInt32) (\<lambda>num.
     andThen getPos (\<lambda>pos1.
     ret (fst acc @ [newSymbolEntry num 0], snd acc + of_nat (pos1 - pos0)))))"

fun readDynSymbols :: "nat \<Rightarrow> SymbolTable \<times> quint32 \<Rightarrow> (SymbolTable \<times> quint32) step" where
  "readDynSymbols 0 acc = ret acc"
| "readDynSymbols (Suc n) acc = andThen (readDynSymbol acc) (readDynSymbols n)"

text \<open>\<open>Parse dynamic symbol table if found\<close>.\<close>

definition readDynSymbolTable ::
  "quint32 \<Rightarrow> Locals \<Rightarrow> BinaryObject \<Rightarrow> (SymbolTable \<times> BinaryObject) step" where
  "readDynSymbolTable offset st b =
     (if indirsymnum st > 0 then
        andThen (modify (seek (unat (indirsymoff st)))) (\<lambda>_.
        andThen (readDynSymbols (unat (indirsymnum st)) ([], 0)) (\<lambda>(dynsymTable, dynsymsize).
        ret (dynsymTable,
             addSection (newSection DynSymbols ''Dynamic Symbol Table''
                           (ucast (indirsymoff st)) (ucast dynsymsize)
                           (offset + indirsymoff st)) b)))
      else ret ([], b))"

subsection \<open>Section contents and symbol names\<close>

text \<open>\<open>Fill data of stored sections\<close>.\<close>

fun fillSections :: "Section list \<Rightarrow> Section list step" where
  "fillSections [] = ret []"
| "fillSections (sec # secs) =
     andThen (modify (seek (unat (getOffset sec)))) (\<lambda>_.
     andThen (untested (read (unat (getSize sec)))) (\<lambda>d.
     andThen (fillSections secs) (\<lambda>secs'.
     ret (sec\<lparr>getData := d\<rparr> # secs'))))"

text \<open>
  The loop that collects a symbol's name, run on the bytes from the start position on:
  every byte up to and including the first zero byte.
\<close>

fun scanString :: "QByteArray \<Rightarrow> QByteArray" where
  "scanString [] = []"
| "scanString (c # cs) = (if c = CHR 0x00 then [c] else c # scanString cs)"

text \<open>
  The start position is the symbol's index converted to \<open>int\<close>. A negative position is
  below the size of the string table, so the loop is entered and reads
  \<open>data[i]\<close> at a negative position.
\<close>

definition symbolString :: "QByteArray \<Rightarrow> quint32 \<Rightarrow> error + string" where
  "symbolString data index =
     (if sint index < 0 then Inl OutOfBounds
      else Inr (QString (scanString (drop (nat (sint index)) data))))"

fun mergeStrings :: "QByteArray \<Rightarrow> SymbolTable \<Rightarrow> error + SymbolTable" where
  "mergeStrings data [] = Inr []"
| "mergeStrings data (symbol # symbols) =
     (case symbolString data (getIndex symbol) of
        Inl e \<Rightarrow> Inl e
      | Inr s \<Rightarrow>
          (case mergeStrings data symbols of
             Inl e \<Rightarrow> Inl e
           | Inr symbols' \<Rightarrow> Inr (symbol\<lparr>getString := s\<rparr> # symbols')))"

text \<open>\<open>If symbol table loaded then merge string table entries into it\<close>.\<close>

definition stringPass :: "quint32 \<Rightarrow> BinaryObject \<Rightarrow> SymbolTable \<Rightarrow> error + SymbolTable" where
  "stringPass symnum' b symTable =
     (if symnum' > 0 then
        (case getSection String b of
           None \<Rightarrow> Inr symTable
         | Some strTable \<Rightarrow> mergeStrings (getData strTable) symTable)
      else Inr symTable)"

text \<open>
  The loop over the dynamic symbols, from position \<open>h\<close> on. \<open>idx\<close> is the entry's index
  converted to \<open>int\<close>; in \<open>idx < symnum\<close> it is converted back to unsigned. The product
  \<open>h * 6\<close> is an \<open>int\<close> that is converted to \<open>quint64\<close>; the model takes it without
  overflow, which is exact for every position below 357913942.
\<close>

fun mergeDynSymbols ::
  "quint64 \<Rightarrow> SymbolTable \<Rightarrow> quint32 \<Rightarrow> nat \<Rightarrow> SymbolTable \<Rightarrow> SymbolTable" where
  "mergeDynSymbols stubAddr symbols symnum' h [] = []"
| "mergeDynSymbols stubAddr symbols symnum' h (symbol # dynsymbols) =
     (let idx = sint (getIndex symbol)
      in (if idx \<ge> 0 \<and> (word_of_int idx :: quint32) < symnum' then
            symbol\<lparr>getString := getString (symbols ! nat idx),
                   getValue := stubAddr + of_nat (h * 6)\<rparr>
          else symbol)
         # mergeDynSymbols stubAddr symbols symnum' (Suc h) dynsymbols)"

text \<open>
  \<open>If dynamic symbol table loaded then merge data from symbol table and symbol stubs
  into it\<close>.
\<close>

definition dynPass ::
  "quint32 \<Rightarrow> quint32 \<Rightarrow> SymbolTable \<Rightarrow> SymbolTable \<Rightarrow> BinaryObject \<Rightarrow> BinaryObject" where
  "dynPass symnum' indirsymnum' symTable dynsymTable b =
     (if indirsymnum' > 0 \<and> symnum' > 0 then
        b\<lparr>getDynSymbolTable :=
             (case getSection SymbolStubs b of
                None \<Rightarrow> dynsymTable
              | Some stubs \<Rightarrow>
                  mergeDynSymbols (getAddress stubs) symTable symnum' 0 dynsymTable)\<rparr>
      else b)"

definition liftE :: "error + 'a \<Rightarrow> 'a step" where
  "liftE x r = (case x of Inl e \<Rightarrow> Inl e | Inr v \<Rightarrow> Inr (v, r))"

subsection \<open>The slice\<close>

text \<open>
  Everything after the loop over the load commands, from the local variables there.
\<close>

definition finishHeader :: "quint32 \<Rightarrow> nat \<Rightarrow> Locals \<Rightarrow> BinaryObject step" where
  "finishHeader offset systemBits st =
     andThen (readSymbolTable offset systemBits st) (\<lambda>(symTable, b1).
     andThen (readDynSymbolTable offset st b1) (\<lambda>(dynsymTable, b2).
     andThen (fillSections (getSections b2)) (\<lambda>secs.
     andThen (liftE (stringPass (symnum st) (b2\<lparr>getSections := secs\<rparr>) symTable))
       (\<lambda>symTable'.
     ret (dynPass (symnum st) (indirsymnum st) symTable' dynsymTable
            (if symnum st > 0 then b2\<lparr>getSections := secs, getSymbolTable := symTable'\<rparr>
             else b2\<lparr>getSections := secs\<rparr>))))))"

text \<open>
  \<open>MachO::parseHeader\<close>: the object that a successful call appends to \<open>objects\<close>. The
  parameter \<open>size\<close> is not used.
\<close>

definition parseHeader :: "quint32 \<Rightarrow> quint32 \<Rightarrow> BinaryObject step" where
  "parseHeader offset size' =
     andThen (readHeader offset) (\<lambda>(st, ncmds).
     andThen (loadCommands offset (getSystemBits (binaryObject st)) (unat ncmds) st)
       (finishHeader offset (getSystemBits (binaryObject st))))"

section \<open>Decoding a file\<close>

text \<open>
  What a call of \<open>parse\<close> leaves: the value returned and the list \<open>objects\<close>; or the
  end of the process; or no defined behaviour.
\<close>

datatype Outcome = Returned bool "BinaryObject list" | Exited | Undefined

definition stopped :: "error \<Rightarrow> BinaryObject list \<Rightarrow> Outcome" where
  "stopped e objects =
     (case e of ReadFailed \<Rightarrow> Returned False objects
      | ProcessExit \<Rightarrow> Exited
      | OutOfBounds \<Rightarrow> Undefined)"

text \<open>\<open>Read "fat" headers\<close>: the offset and size of each object file.\<close>

fun readFatArchs :: "nat \<Rightarrow> (quint32 \<times> quint32) list \<Rightarrow> (quint32 \<times> quint32) list step" where
  "readFatArchs 0 archs = ret archs"
| "readFatArchs (Suc n) archs =
     andThen (checked getUInt32) (\<lambda>_.
     andThen (checked getUInt32) (\<lambda>_.
     andThen (checked getUInt32) (\<lambda>offset.
     andThen (checked getUInt32) (\<lambda>size.
     andThen (checked getUInt32) (\<lambda>_.
     readFatArchs n (archs @ [(offset, size)]))))))"

text \<open>\<open>Parse the actual binary objects\<close>.\<close>

fun parseArchs :: "(quint32 \<times> quint32) list \<Rightarrow> BinaryObject list \<Rightarrow> Reader \<Rightarrow> Outcome" where
  "parseArchs [] objects r = Returned True objects"
| "parseArchs (arch # archs) objects r =
     (case parseHeader (fst arch) (snd arch) r of
        Inl e \<Rightarrow> stopped e objects
      | Inr (b, r') \<Rightarrow> parseArchs archs (objects @ [b]) r')"

text \<open>
  The start of a universal binary after its magic number: the values are saved as
  big-endian, so they are read as such.
\<close>

definition readFatHeader :: "(quint32 \<times> quint32) list step" where
  "readFatHeader =
     andThen (modify (setLittleEndian False)) (\<lambda>_.
     andThen (checked getUInt32) (\<lambda>nfat_arch.
     readFatArchs (unat nfat_arch) []))"

text \<open>
  \<open>MachO::parse\<close>, from the content of the list \<open>objects\<close> before the call (empty in
  a newly constructed \<open>MachO\<close>). The file is \<open>None\<close> when it cannot be opened.
\<close>

definition parse :: "bool \<Rightarrow> QByteArray option \<Rightarrow> BinaryObject list \<Rightarrow> Outcome" where
  "parse le0 file objects =
     (case file of
        None \<Rightarrow> Returned False objects
      | Some f \<Rightarrow>
          (case getUInt32 (newReader le0 f) of
             (None, r) \<Rightarrow> Returned False objects
           | (Some magic, r) \<Rightarrow>
               if magic = 0xCAFEBABE \<or> magic = 0xBEBAFECA then
                 (case readFatHeader r of
                    Inl e \<Rightarrow> stopped e objects
                  | Inr (archs, r') \<Rightarrow> parseArchs archs objects r')
               else
                 (case parseHeader 0 0 r of
                    Inl e \<Rightarrow> stopped e objects
                  | Inr (b, r') \<Rightarrow> Returned True (objects @ [b]))))"

section \<open>Example files\<close>

text \<open>
  A 64-bit big-endian slice with no load commands: the header of 32 bytes.
\<close>

definition slice64BE :: QByteArray where
  "slice64BE =
     [CHR 0xEF, CHR 0xDE, CHR 0xAF, CHR 0xFC, CHR 0x01, CHR 0x00, CHR 0x00, CHR 0x12,
     CHR 0x80, CHR 0x00, CHR 0x00, CHR 0x03, CHR 0x00, CHR 0x00, CHR 0x00, CHR 0x02,
     CHR 0x00, CHR 0x00, CHR 0x00, CHR 0x00, CHR 0x00, CHR 0x00, CHR 0x00, CHR 0x00,
     CHR 0x00, CHR 0x00, CHR 0x00, CHR 0x00, CHR 0x00, CHR 0x00, CHR 0x00, CHR 0x00]"

text \<open>
  The first 28 bytes of a 64-bit little-endian header with no load commands: the file
  ends before the reserved field.
\<close>

definition slice64Short :: QByteArray where
  "slice64Short =
     [CHR 0xCF, CHR 0xFA, CHR 0xED, CHR 0xFE, CHR 0x07, CHR 0x00, CHR 0x00, CHR 0x01,
     CHR 0x03, CHR 0x00, CHR 0x00, CHR 0x80, CHR 0x02, CHR 0x00, CHR 0x00, CHR 0x00,
     CHR 0x00, CHR 0x00, CHR 0x00, CHR 0x00, CHR 0x00, CHR 0x00, CHR 0x00, CHR 0x00,
     CHR 0x00, CHR 0x00, CHR 0x00, CHR 0x00]"

text \<open>
  A header of 28 bytes whose magic number 0xDEADBEEF is none of the magic constants.
\<close>

definition sliceBadMagic :: QByteArray where
  "sliceBadMagic =
     [CHR 0xEF, CHR 0xBE, CHR 0xAD, CHR 0xDE, CHR 0x07, CHR 0x00, CHR 0x00, CHR 0x00,
     CHR 0x03, CHR 0x00, CHR 0x00, CHR 0x00, CHR 0x02, CHR 0x00, CHR 0x00, CHR 0x00,
     CHR 0x00, CHR 0x00, CHR 0x00, CHR 0x00, CHR 0x00, CHR 0x00, CHR 0x00, CHR 0x00,
     CHR 0x00, CHR 0x00, CHR 0x00, CHR 0x00]"

text \<open>
  A 32-bit little-endian slice with three load commands: LC_FUNCTION_STARTS, a command
  with the type 0x7F and the size 8, which no branch of the loop names, and
  LC_CODE_SIGNATURE.
\<close>

definition sliceUnknownCmd :: QByteArray where
  "sliceUnknownCmd =
     [CHR 0xCE, CHR 0xFA, CHR 0xED, CHR 0xFE, CHR 0x07, CHR 0x00, CHR 0x00, CHR 0x00,
     CHR 0x03, CHR 0x00, CHR 0x00, CHR 0x00, CHR 0x02, CHR 0x00, CHR 0x00, CHR 0x00,
     CHR 0x03, CHR 0x00, CHR 0x00, CHR 0x00, CHR 0x28, CHR 0x00, CHR 0x00, CHR 0x00,
     CHR 0x00, CHR 0x00, CHR 0x00, CHR 0x00, CHR 0x26, CHR 0x00, CHR 0x00, CHR 0x00,
     CHR 0x10, CHR 0x00, CHR 0x00, CHR 0x00, CHR 0x00, CHR 0x01, CHR 0x00, CHR 0x00,
     CHR 0x00, CHR 0x00, CHR 0x00, CHR 0x00, CHR 0x7F, CHR 0x00, CHR 0x00, CHR 0x00,
     CHR 0x08, CHR 0x00, CHR 0x00, CHR 0x00, CHR 0x1D, CHR 0x00, CHR 0x00, CHR 0x00,
     CHR 0x10, CHR 0x00, CHR 0x00, CHR 0x00, CHR 0x00, CHR 0x02, CHR 0x00, CHR 0x00,
     CHR 0x00, CHR 0x00, CHR 0x00, CHR 0x00]"

text \<open>
  A universal binary whose directory lists two slices, at the offsets 48 and 76. The
  first slice is complete (a header of 28 bytes); the file ends where the second begins.
\<close>

definition fatTruncated :: QByteArray where
  "fatTruncated =
     [CHR 0xCA, CHR 0xFE, CHR 0xBA, CHR 0xBE, CHR 0x00, CHR 0x00, CHR 0x00, CHR 0x02,
     CHR 0x00, CHR 0x00, CHR 0x00, CHR 0x0C, CHR 0x00, CHR 0x00, CHR 0x00, CHR 0x00,
     CHR 0x00, CHR 0x00, CHR 0x00, CHR 0x30, CHR 0x00, CHR 0x00, CHR 0x00, CHR 0x1C,
     CHR 0x00, CHR 0x00, CHR 0x00, CHR 0x00, CHR 0x00, CHR 0x00, CHR 0x00, CHR 0x0E,
     CHR 0x00, CHR 0x00, CHR 0x00, CHR 0x00, CHR 0x00, CHR 0x00, CHR 0x00, CHR 0x4C,
     CHR 0x00, CHR 0x00, CHR 0x00, CHR 0x1C, CHR 0x00, CHR 0x00, CHR 0x00, CHR 0x00,
     CHR 0xCE, CHR 0xFA, CHR 0xED, CHR 0xFE, CHR 0x07, CHR 0x00, CHR 0x00, CHR 0x00,
     CHR 0x03, CHR 0x00, CHR 0x00, CHR 0x00, CHR 0x02, CHR 0x00, CHR 0x00, CHR 0x00,
     CHR 0x00, CHR 0x00, CHR 0x00, CHR 0x00, CHR 0x00, CHR 0x00, CHR 0x00, CHR 0x00,
     CHR 0x00, CHR 0x00, CHR 0x00, CHR 0x00]"

text \<open>
  A universal binary with two slices. The directory names the CPU types 12 (ARM) and 14
  (SPARC); the slice at offset 48 is a 32-bit little-endian x86 header and the slice at
  offset 76 is a 64-bit big-endian PowerPC header.
\<close>

definition fatTwoSlices :: QByteArray where
  "fatTwoSlices =
     [CHR 0xCA, CHR 0xFE, CHR 0xBA, CHR 0xBE, CHR 0x00, CHR 0x00, CHR 0x00, CHR 0x02,
     CHR 0x00, CHR 0x00, CHR 0x00, CHR 0x0C, CHR 0x00, CHR 0x00, CHR 0x00, CHR 0x00,
     CHR 0x00, CHR 0x00, CHR 0x00, CHR 0x30, CHR 0x00, CHR 0x00, CHR 0x00, CHR 0x1C,
     CHR 0x00, CHR 0x00, CHR 0x00, CHR 0x00, CHR 0x00, CHR 0x00, CHR 0x00, CHR 0x0E,
     CHR 0x00, CHR 0x00, CHR 0x00, CHR 0x00, CHR 0x00, CHR 0x00, CHR 0x00, CHR 0x4C,
     CHR 0x00, CHR 0x00, CHR 0x00, CHR 0x20, CHR 0x00, CHR 0x00, CHR 0x00, CHR 0x00,
     CHR 0xCE, CHR 0xFA, CHR 0xED, CHR 0xFE, CHR 0x07, CHR 0x00, CHR 0x00, CHR 0x00,
     CHR 0x03, CHR 0x00, CHR 0x00, CHR 0x00, CHR 0x02, CHR 0x00, CHR 0x00, CHR 0x00,
     CHR 0x00, CHR 0x00, CHR 0x00, CHR 0x00, CHR 0x00, CHR 0x00, CHR 0x00, CHR 0x00,
     CHR 0x00, CHR 0x00, CHR 0x00, CHR 0x00, CHR 0xEF, CHR 0xDE, CHR 0xAF, CHR 0xFC,
     CHR 0x01, CHR 0x00, CHR 0x00, CHR 0x12, CHR 0x80, CHR 0x00, CHR 0x00, CHR 0x03,
     CHR 0x00, CHR 0x00, CHR 0x00, CHR 0x02, CHR 0x00, CHR 0x00, CHR 0x00, CHR 0x00,
     CHR 0x00, CHR 0x00, CHR 0x00, CHR 0x00, CHR 0x00, CHR 0x00, CHR 0x00, CHR 0x00,
     CHR 0x00, CHR 0x00, CHR 0x00, CHR 0x00]"

text \<open>
  A 32-bit little-endian slice with LC_SYMTAB: two symbols at offset 52, with the string
  indices 0 and 4, and at offset 76 the string table: foo, a zero byte, bar, a zero byte.
\<close>

definition sliceSymbols :: QByteArray where
  "sliceSymbols =
     [CHR 0xCE, CHR 0xFA, CHR 0xED, CHR 0xFE, CHR 0x07, CHR 0x00, CHR 0x00, CHR 0x00,
     CHR 0x03, CHR 0x00, CHR 0x00, CHR 0x00, CHR 0x02, CHR 0x00, CHR 0x00, CHR 0x00,
     CHR 0x01, CHR 0x00, CHR 0x00, CHR 0x00, CHR 0x18, CHR 0x00, CHR 0x00, CHR 0x00,
     CHR 0x00, CHR 0x00, CHR 0x00, CHR 0x00, CHR 0x02, CHR 0x00, CHR 0x00, CHR 0x00,
     CHR 0x18, CHR 0x00, CHR 0x00, CHR 0x00, CHR 0x34, CHR 0x00, CHR 0x00, CHR 0x00,
     CHR 0x02, CHR 0x00, CHR 0x00, CHR 0x00, CHR 0x4C, CHR 0x00, CHR 0x00, CHR 0x00,
     CHR 0x08, CHR 0x00, CHR 0x00, CHR 0x00, CHR 0x00, CHR 0x00, CHR 0x00, CHR 0x00,
     CHR 0x00, CHR 0x00, CHR 0x00, CHR 0x00, CHR 0x11, CHR 0x11, CHR 0x00, CHR 0x00,
     CHR 0x04, CHR 0x00, CHR 0x00, CHR 0x00, CHR 0x00, CHR 0x00, CHR 0x00, CHR 0x00,
     CHR 0x22, CHR 0x22, CHR 0x00, CHR 0x00, CHR 0x66, CHR 0x6F, CHR 0x6F, CHR 0x00,
     CHR 0x62, CHR 0x61, CHR 0x72, CHR 0x00]"

text \<open>
  As before, with the string indices 8 (the size of the string table) and 1000.
\<close>

definition sliceOutOfRange :: QByteArray where
  "sliceOutOfRange =
     [CHR 0xCE, CHR 0xFA, CHR 0xED, CHR 0xFE, CHR 0x07, CHR 0x00, CHR 0x00, CHR 0x00,
     CHR 0x03, CHR 0x00, CHR 0x00, CHR 0x00, CHR 0x02, CHR 0x00, CHR 0x00, CHR 0x00,
     CHR 0x01, CHR 0x00, CHR 0x00, CHR 0x00, CHR 0x18, CHR 0x00, CHR 0x00, CHR 0x00,
     CHR 0x00, CHR 0x00, CHR 0x00, CHR 0x00, CHR 0x02, CHR 0x00, CHR 0x00, CHR 0x00,
     CHR 0x18, CHR 0x00, CHR 0x00, CHR 0x00, CHR 0x34, CHR 0x00, CHR 0x00, CHR 0x00,
     CHR 0x02, CHR 0x00, CHR 0x00, CHR 0x00, CHR 0x4C, CHR 0x00, CHR 0x00, CHR 0x00,
     CHR 0x08, CHR 0x00, CHR 0x00, CHR 0x00, CHR 0x08, CHR 0x00, CHR 0x00, CHR 0x00,
     CHR 0x00, CHR 0x00, CHR 0x00, CHR 0x00, CHR 0x11, CHR 0x11, CHR 0x00, CHR 0x00,
     CHR 0xE8, CHR 0x03, CHR 0x00, CHR 0x00, CHR 0x00, CHR 0x00, CHR 0x00, CHR 0x00,
     CHR 0x22, CHR 0x22, CHR 0x00, CHR 0x00, CHR 0x66, CHR 0x6F, CHR 0x6F, CHR 0x00,
     CHR 0x62, CHR 0x61, CHR 0x72, CHR 0x00]"

text \<open>
  A 32-bit little-endian slice with LC_SYMTAB: one symbol at offset 52, with the string
  index 0x80000000, and the string table at offset 64.
\<close>

definition sliceNegIndex :: QByteArray where
  "sliceNegIndex =
     [CHR 0xCE, CHR 0xFA, CHR 0xED, CHR 0xFE, CHR 0x07, CHR 0x00, CHR 0x00, CHR 0x00,
     CHR 0x03, CHR 0x00, CHR 0x00, CHR 0x00, CHR 0x02, CHR 0x00, CHR 0x00, CHR 0x00,
     CHR 0x01, CHR 0x00, CHR 0x00, CHR 0x00, CHR 0x18, CHR 0x00, CHR 0x00, CHR 0x00,
     CHR 0x00, CHR 0x00, CHR 0x00, CHR 0x00, CHR 0x02, CHR 0x00, CHR 0x00, CHR 0x00,
     CHR 0x18, CHR 0x00, CHR 0x00, CHR 0x00, CHR 0x34, CHR 0x00, CHR 0x00, CHR 0x00,
     CHR 0x01, CHR 0x00, CHR 0x00, CHR 0x00, CHR 0x40, CHR 0x00, CHR 0x00, CHR 0x00,
     CHR 0x08, CHR 0x00, CHR 0x00, CHR 0x00, CHR 0x00, CHR 0x00, CHR 0x00, CHR 0x80,
     CHR 0x00, CHR 0x00, CHR 0x00, CHR 0x00, CHR 0x11, CHR 0x11, CHR 0x00, CHR 0x00,
     CHR 0x66, CHR 0x6F, CHR 0x6F, CHR 0x00, CHR 0x62, CHR 0x61, CHR 0x72, CHR 0x00]"

text \<open>
  A 32-bit little-endian slice with three load commands: LC_SEGMENT with the section
  __stubs of the segment __TEXT at the address 0x1000, LC_SYMTAB with two symbols named
  "foo" and "bar", and LC_DYSYMTAB with three indirect symbols whose indices are 1, 0
  and 7.
\<close>

definition sliceStubs :: QByteArray where
  "sliceStubs =
     [CHR 0xCE, CHR 0xFA, CHR 0xED, CHR 0xFE, CHR 0x07, CHR 0x00, CHR 0x00, CHR 0x00,
     CHR 0x03, CHR 0x00, CHR 0x00, CHR 0x00, CHR 0x02, CHR 0x00, CHR 0x00, CHR 0x00,
     CHR 0x03, CHR 0x00, CHR 0x00, CHR 0x00, CHR 0xE4, CHR 0x00, CHR 0x00, CHR 0x00,
     CHR 0x00, CHR 0x00, CHR 0x00, CHR 0x00, CHR 0x01, CHR 0x00, CHR 0x00, CHR 0x00,
     CHR 0x7C, CHR 0x00, CHR 0x00, CHR 0x00, CHR 0x5F, CHR 0x5F, CHR 0x54, CHR 0x45,
     CHR 0x58, CHR 0x54, CHR 0x00, CHR 0x00, CHR 0x00, CHR 0x00, CHR 0x00, CHR 0x00,
     CHR 0x00, CHR 0x00, CHR 0x00, CHR 0x00, CHR 0x00, CHR 0x10, CHR 0x00, CHR 0x00,
     CHR 0x00, CHR 0x10, CHR 0x00, CHR 0x00, CHR 0x00, CHR 0x00, CHR 0x00, CHR 0x00,
     CHR 0x00, CHR 0x10, CHR 0x00, CHR 0x00, CHR 0x07, CHR 0x00, CHR 0x00, CHR 0x00,
     CHR 0x05, CHR 0x00, CHR 0x00, CHR 0x00, CHR 0x01, CHR 0x00, CHR 0x00, CHR 0x00,
     CHR 0x00, CHR 0x00, CHR 0x00, CHR 0x00, CHR 0x5F, CHR 0x5F, CHR 0x73, CHR 0x74,
     CHR 0x75, CHR 0x62, CHR 0x73, CHR 0x00, CHR 0x00, CHR 0x00, CHR 0x00, CHR 0x00,
     CHR 0x00, CHR 0x00, CHR 0x00, CHR 0x00, CHR 0x5F, CHR 0x5F, CHR 0x54, CHR 0x45,
     CHR 0x58, CHR 0x54, CHR 0x00, CHR 0x00, CHR 0x00, CHR 0x00, CHR 0x00, CHR 0x00,
     CHR 0x00, CHR 0x00, CHR 0x00, CHR 0x00, CHR 0x00, CHR 0x10, CHR 0x00, CHR 0x00,
     CHR 0x12, CHR 0x00, CHR 0x00, CHR 0x00, CHR 0x2C, CHR 0x01, CHR 0x00, CHR 0x00,
     CHR 0x01, CHR 0x00, CHR 0x00, CHR 0x00, CHR 0x00, CHR 0x00, CHR 0x00, CHR 0x00,
     CHR 0x00, CHR 0x00, CHR 0x00, CHR 0x00, CHR 0x08, CHR 0x04, CHR 0x00, CHR 0x80,
     CHR 0x00, CHR 0x00, CHR 0x00, CHR 0x00, CHR 0x06, CHR 0x00, CHR 0x00, CHR 0x00,
     CHR 0x02, CHR 0x00, CHR 0x00, CHR 0x00, CHR 0x18, CHR 0x00, CHR 0x00, CHR 0x00,
     CHR 0x00, CHR 0x01, CHR 0x00, CHR 0x00, CHR 0x02, CHR 0x00, CHR 0x00, CHR 0x00,
     CHR 0x24, CHR 0x01, CHR 0x00, CHR 0x00, CHR 0x08, CHR 0x00, CHR 0x00, CHR 0x00,
     CHR 0x0B, CHR 0x00, CHR 0x00, CHR 0x00, CHR 0x50, CHR 0x00, CHR 0x00, CHR 0x00,
     CHR 0x00, CHR 0x00, CHR 0x00, CHR 0x00, CHR 0x00, CHR 0x00, CHR 0x00, CHR 0x00,
     CHR 0x00, CHR 0x00, CHR 0x00, CHR 0x00, CHR 0x00, CHR 0x00, CHR 0x00, CHR 0x00,
     CHR 0x00, CHR 0x00, CHR 0x00, CHR 0x00, CHR 0x00, CHR 0x00, CHR 0x00, CHR 0x00,
     CHR 0x00, CHR 0x00, CHR 0x00, CHR 0x00, CHR 0x00, CHR 0x00, CHR 0x00, CHR 0x00,
     CHR 0x00, CHR 0x00, CHR 0x00, CHR 0x00, CHR 0x00, CHR 0x00, CHR 0x00, CHR 0x00,
     CHR 0x00, CHR 0x00, CHR 0x00, CHR 0x00, CHR 0x00, CHR 0x00, CHR 0x00, CHR 0x00,
     CHR 0x18, CHR 0x01, CHR 0x00, CHR 0x00, CHR 0x03, CHR 0x00, CHR 0x00, CHR 0x00,
     CHR 0x00, CHR 0x00, CHR 0x00, CHR 0x00, CHR 0x00, CHR 0x00, CHR 0x00, CHR 0x00,
     CHR 0x00, CHR 0x00, CHR 0x00, CHR 0x00, CHR 0x00, CHR 0x00, CHR 0x00, CHR 0x00,
     CHR 0x00, CHR 0x00, CHR 0x00, CHR 0x00, CHR 0x00, CHR 0x00, CHR 0x00, CHR 0x00,
     CHR 0x00, CHR 0x00, CHR 0x00, CHR 0x00, CHR 0x04, CHR 0x00, CHR 0x00, CHR 0x00,
     CHR 0x00, CHR 0x00, CHR 0x00, CHR 0x00, CHR 0x00, CHR 0x00, CHR 0x00, CHR 0x00,
     CHR 0x01, CHR 0x00, CHR 0x00, CHR 0x00, CHR 0x00, CHR 0x00, CHR 0x00, CHR 0x00,
     CHR 0x07, CHR 0x00, CHR 0x00, CHR 0x00, CHR 0x66, CHR 0x6F, CHR 0x6F, CHR 0x00,
     CHR 0x62, CHR 0x61, CHR 0x72, CHR 0x00, CHR 0xFF, CHR 0x25, CHR 0x00, CHR 0x00,
     CHR 0x00, CHR 0x00, CHR 0xFF, CHR 0x25, CHR 0x00, CHR 0x00, CHR 0x00, CHR 0x00,
     CHR 0xFF, CHR 0x25, CHR 0x00, CHR 0x00, CHR 0x00, CHR 0x00]"

text \<open>
  A universal binary with one slice at the offset 28. The slice has LC_SYMTAB with one
  symbol; its offsets (52 for the symbol, 64 for the string table) count from
  the start of the slice.
\<close>

definition fatSymbols :: QByteArray where
  "fatSymbols =
     [CHR 0xCA, CHR 0xFE, CHR 0xBA, CHR 0xBE, CHR 0x00, CHR 0x00, CHR 0x00, CHR 0x01,
     CHR 0x00, CHR 0x00, CHR 0x00, CHR 0x07, CHR 0x00, CHR 0x00, CHR 0x00, CHR 0x03,
     CHR 0x00, CHR 0x00, CHR 0x00, CHR 0x1C, CHR 0x00, CHR 0x00, CHR 0x00, CHR 0x44,
     CHR 0x00, CHR 0x00, CHR 0x00, CHR 0x00, CHR 0xCE, CHR 0xFA, CHR 0xED, CHR 0xFE,
     CHR 0x07, CHR 0x00, CHR 0x00, CHR 0x00, CHR 0x03, CHR 0x00, CHR 0x00, CHR 0x00,
     CHR 0x02, CHR 0x00, CHR 0x00, CHR 0x00, CHR 0x01, CHR 0x00, CHR 0x00, CHR 0x00,
     CHR 0x18, CHR 0x00, CHR 0x00, CHR 0x00, CHR 0x00, CHR 0x00, CHR 0x00, CHR 0x00,
     CHR 0x02, CHR 0x00, CHR 0x00, CHR 0x00, CHR 0x18, CHR 0x00, CHR 0x00, CHR 0x00,
     CHR 0x34, CHR 0x00, CHR 0x00, CHR 0x00, CHR 0x01, CHR 0x00, CHR 0x00, CHR 0x00,
     CHR 0x40, CHR 0x00, CHR 0x00, CHR 0x00, CHR 0x04, CHR 0x00, CHR 0x00, CHR 0x00,
     CHR 0x00, CHR 0x00, CHR 0x00, CHR 0x00, CHR 0x00, CHR 0x00, CHR 0x00, CHR 0x00,
     CHR 0x11, CHR 0x11, CHR 0x00, CHR 0x00, CHR 0x66, CHR 0x6F, CHR 0x6F, CHR 0x00]"

text \<open>
  A universal binary with one slice at the offset 28: the bytes of \<open>sliceStubs\<close>, whose
  offsets count from the start of the slice.
\<close>

definition fatStubs :: QByteArray where
  "fatStubs =
     [CHR 0xCA, CHR 0xFE, CHR 0xBA, CHR 0xBE, CHR 0x00, CHR 0x00, CHR 0x00, CHR 0x01,
     CHR 0x00, CHR 0x00, CHR 0x00, CHR 0x07, CHR 0x00, CHR 0x00, CHR 0x00, CHR 0x03,
     CHR 0x00, CHR 0x00, CHR 0x00, CHR 0x1C, CHR 0x00, CHR 0x00, CHR 0x01, CHR 0x3E,
     CHR 0x00, CHR 0x00, CHR 0x00, CHR 0x00, CHR 0xCE, CHR 0xFA, CHR 0xED, CHR 0xFE,
     CHR 0x07, CHR 0x00, CHR 0x00, CHR 0x00, CHR 0x03, CHR 0x00, CHR 0x00, CHR 0x00,
     CHR 0x02, CHR 0x00, CHR 0x00, CHR 0x00, CHR 0x03, CHR 0x00, CHR 0x00, CHR 0x00,
     CHR 0xE4, CHR 0x00, CHR 0x00, CHR 0x00, CHR 0x00, CHR 0x00, CHR 0x00, CHR 0x00,
     CHR 0x01, CHR 0x00, CHR 0x00, CHR 0x00, CHR 0x7C, CHR 0x00, CHR 0x00, CHR 0x00,
     CHR 0x5F, CHR 0x5F, CHR 0x54, CHR 0x45, CHR 0x58, CHR 0x54, CHR 0x00, CHR 0x00,
     CHR 0x00, CHR 0x00, CHR 0x00, CHR 0x00, CHR 0x00, CHR 0x00, CHR 0x00, CHR 0x00,
     CHR 0x00, CHR 0x10, CHR 0x00, CHR 0x00, CHR 0x00, CHR 0x10, CHR 0x00, CHR 0x00,
     CHR 0x00, CHR 0x00, CHR 0x00, CHR 0x00, CHR 0x00, CHR 0x10, CHR 0x00, CHR 0x00,
     CHR 0x07, CHR 0x00, CHR 0x00, CHR 0x00, CHR 0x05, CHR 0x00, CHR 0x00, CHR 0x00,
     CHR 0x01, CHR 0x00, CHR 0x00, CHR 0x00, CHR 0x00, CHR 0x00, CHR 0x00, CHR 0x00,
     CHR 0x5F, CHR 0x5F, CHR 0x73, CHR 0x74, CHR 0x75, CHR 0x62, CHR 0x73, CHR 0x00,
     CHR 0x00, CHR 0x00, CHR 0x00, CHR 0x00, CHR 0x00, CHR 0x00, CHR 0x00, CHR 0x00,
     CHR 0x5F, CHR 0x5F, CHR 0x54, CHR 0x45, CHR 0x58, CHR 0x54, CHR 0x00, CHR 0x00,
     CHR 0x00, CHR 0x00, CHR 0x00, CHR 0x00, CHR 0x00, CHR 0x00, CHR 0x00, CHR 0x00,
     CHR 0x00, CHR 0x10, CHR 0x00, CHR 0x00, CHR 0x12, CHR 0x00, CHR 0x00, CHR 0x00,
     CHR 0x2C, CHR 0x01, CHR 0x00, CHR 0x00, CHR 0x01, CHR 0x00, CHR 0x00, CHR 0x00,
     CHR 0x00, CHR 0x00, CHR 0x00, CHR 0x00, CHR 0x00, CHR 0x00, CHR 0x00, CHR 0x00,
     CHR 0x08, CHR 0x04, CHR 0x00, CHR 0x80, CHR 0x00, CHR 0x00, CHR 0x00, CHR 0x00,
     CHR 0x06, CHR 0x00, CHR 0x00, CHR 0x00, CHR 0x02, CHR 0x00, CHR 0x00, CHR 0x00,
     CHR 0x18, CHR 0x00, CHR 0x00, CHR 0x00, CHR 0x00, CHR 0x01, CHR 0x00, CHR 0x00,
     CHR 0x02, CHR 0x00, CHR 0x00, CHR 0x00, CHR 0x24, CHR 0x01, CHR 0x00, CHR 0x00,
     CHR 0x08, CHR 0x00, CHR 0x00, CHR 0x00, CHR 0x0B, CHR 0x00, CHR 0x00, CHR 0x00,
     CHR 0x50, CHR 0x00, CHR 0x00, CHR 0x00, CHR 0x00, CHR 0x00, CHR 0x00, CHR 0x00,
     CHR 0x00, CHR 0x00, CHR 0x00, CHR 0x00, CHR 0x00, CHR 0x00, CHR 0x00, CHR 0x00,
     CHR 0x00, CHR 0x00, CHR 0x00, CHR 0x00, CHR 0x00, CHR 0x00, CHR 0x00, CHR 0x00,
     CHR 0x00, CHR 0x00, CHR 0x00, CHR 0x00, CHR 0x00, CHR 0x00, CHR 0x00, CHR 0x00,
     CHR 0x00, CHR 0x00, CHR 0x00, CHR 0x00, CHR 0x00, CHR 0x00, CHR 0x00, CHR 0x00,
     CHR 0x00, CHR 0x00, CHR 0x00, CHR 0x00, CHR 0x00, CHR 0x00, CHR 0x00, CHR 0x00,
     CHR 0x00, CHR 0x00, CHR 0x00, CHR 0x00, CHR 0x18, CHR 0x01, CHR 0x00, CHR 0x00,
     CHR 0x03, CHR 0x00, CHR 0x00, CHR 0x00, CHR 0x00, CHR 0x00, CHR 0x00, CHR 0x00,
     CHR 0x00, CHR 0x00, CHR 0x00, CHR 0x00, CHR 0x00, CHR 0x00, CHR 0x00, CHR 0x00,
     CHR 0x00, CHR 0x00, CHR 0x00, CHR 0x00, CHR 0x00, CHR 0x00, CHR 0x00, CHR 0x00,
     CHR 0x00, CHR 0x00, CHR 0x00, CHR 0x00, CHR 0x00, CHR 0x00, CHR 0x00, CHR 0x00,
     CHR 0x04, CHR 0x00, CHR 0x00, CHR 0x00, CHR 0x00, CHR 0x00, CHR 0x00, CHR 0x00,
     CHR 0x00, CHR 0x00, CHR 0x00, CHR 0x00, CHR 0x01, CHR 0x00, CHR 0x00, CHR 0x00,
     CHR 0x00, CHR 0x00, CHR 0x00, CHR 0x00, CHR 0x07, CHR 0x00, CHR 0x00, CHR 0x00,
     CHR 0x66, CHR 0x6F, CHR 0x6F, CHR 0x00, CHR 0x62, CHR 0x61, CHR 0x72, CHR 0x00,
     CHR 0xFF, CHR 0x25, CHR 0x00, CHR 0x00, CHR 0x00, CHR 0x00, CHR 0xFF, CHR 0x25,
     CHR 0x00, CHR 0x00, CHR 0x00, CHR 0x00, CHR 0xFF, CHR 0x25, CHR 0x00, CHR 0x00,
     CHR 0x00, CHR 0x00]"

text \<open>
  A universal binary with one slice at the offset 28. The slice has LC_SYMTAB with no
  symbols and a string table of 4 bytes whose offset field, at the position 72 of the
  file, holds 0xFFFFFFF0.
\<close>

definition fatWrap :: QByteArray where
  "fatWrap =
     [CHR 0xCA, CHR 0xFE, CHR 0xBA, CHR 0xBE, CHR 0x00, CHR 0x00, CHR 0x00, CHR 0x01,
     CHR 0x00, CHR 0x00, CHR 0x00, CHR 0x07, CHR 0x00, CHR 0x00, CHR 0x00, CHR 0x03,
     CHR 0x00, CHR 0x00, CHR 0x00, CHR 0x1C, CHR 0x00, CHR 0x00, CHR 0x00, CHR 0x34,
     CHR 0x00, CHR 0x00, CHR 0x00, CHR 0x00, CHR 0xCE, CHR 0xFA, CHR 0xED, CHR 0xFE,
     CHR 0x07, CHR 0x00, CHR 0x00, CHR 0x00, CHR 0x03, CHR 0x00, CHR 0x00, CHR 0x00,
     CHR 0x02, CHR 0x00, CHR 0x00, CHR 0x00, CHR 0x01, CHR 0x00, CHR 0x00, CHR 0x00,
     CHR 0x18, CHR 0x00, CHR 0x00, CHR 0x00, CHR 0x00, CHR 0x00, CHR 0x00, CHR 0x00,
     CHR 0x02, CHR 0x00, CHR 0x00, CHR 0x00, CHR 0x18, CHR 0x00, CHR 0x00, CHR 0x00,
     CHR 0x00, CHR 0x00, CHR 0x00, CHR 0x00, CHR 0x00, CHR 0x00, CHR 0x00, CHR 0x00,
     CHR 0xF0, CHR 0xFF, CHR 0xFF, CHR 0xFF, CHR 0x04, CHR 0x00, CHR 0x00, CHR 0x00]"


section \<open>Notions used in the proofs\<close>

text \<open>A step ensures \<open>Q\<close> when every value it yields satisfies \<open>Q\<close>.\<close>

definition ensures :: "'a step \<Rightarrow> ('a \<Rightarrow> bool) \<Rightarrow> bool" where
  "ensures m Q = (\<forall>r x r'. m r = Inr (x, r') \<longrightarrow> Q x)"

text \<open>
  Two objects agree on what the file header determines: the bit width, the byte order,
  the CPU type and subtype and the file type.
\<close>

definition sameHeader :: "BinaryObject \<Rightarrow> BinaryObject \<Rightarrow> bool" where
  "sameHeader b b' =
     (getSystemBits b' = getSystemBits b \<and> isLittleEndian b' = isLittleEndian b \<and>
      getCpuType b' = getCpuType b \<and> getCpuSubType b' = getCpuSubType b \<and>
      getFileType b' = getFileType b)"

text \<open>A step keeps the device when the reader it yields is on the same bytes.\<close>

definition keepsDev :: "'a step \<Rightarrow> bool" where
  "keepsDev m = (\<forall>r x r'. m r = Inr (x, r') \<longrightarrow> dev r' = dev r)"

text \<open>
  The object with \<open>B\<close> added to the file offset of every section, in the arithmetic of
  \<open>quint32\<close>.
\<close>

definition rebase :: "quint32 \<Rightarrow> BinaryObject \<Rightarrow> BinaryObject" where
  "rebase B b =
     b\<lparr>getSections := map (\<lambda>sec. sec\<lparr>getOffset := B + getOffset sec\<rparr>) (getSections b)\<rparr>"

definition rebaseLocals :: "quint32 \<Rightarrow> Locals \<Rightarrow> Locals" where
  "rebaseLocals B st = st\<lparr>binaryObject := rebase B (binaryObject st)\<rparr>"

text \<open>The step that yields \<open>g x\<close> where \<open>m\<close> yields \<open>x\<close>, and stops where \<open>m\<close> stops.\<close>

definition mapStep :: "('a \<Rightarrow> 'b) \<Rightarrow> 'a step \<Rightarrow> 'b step" where
  "mapStep g m = andThen m (\<lambda>x. ret (g x))"

text \<open>
  The value of the \<open>n\<close> bytes at the position \<open>p\<close> of the file, in the byte order of the
  reader; the size of an entry of the symbol table; and the entry made of the bytes at
  the position \<open>p\<close>: a 32-bit string index, and after four more bytes the value.
\<close>

definition wordAt :: "Reader \<Rightarrow> nat \<Rightarrow> nat \<Rightarrow> 'a::len word" where
  "wordAt r n p =
     wordLE (if littleEndian r then take n (drop p (dev r)) else rev (take n (drop p (dev r))))"

definition entrySize :: "nat \<Rightarrow> nat" where
  "entrySize systemBits = (if systemBits = 32 then 12 else 16)"

definition symbolAt :: "nat \<Rightarrow> Reader \<Rightarrow> nat \<Rightarrow> SymbolEntry" where
  "symbolAt systemBits r p =
     newSymbolEntry (wordAt r 4 p)
       (if systemBits = 32 then ucast (wordAt r 4 (p + 8) :: quint32) else wordAt r 8 (p + 8))"

text \<open>The local variables of \<open>parseHeader\<close> after the load commands of \<open>fatStubs\<close>.\<close>

definition fatStubsLocals :: Locals where
  "fatStubsLocals =
     \<lparr>binaryObject =
        \<lparr>getSystemBits = 32, isLittleEndian = True, getCpuType = X86,
         getCpuSubType = I386, getFileType = Execute,
         getSections =
           [newSection SymbolStubs ''Symbol Stubs'' 0x1000 18 328,
            newSection String ''String Table'' 292 8 320],
         getSymbolTable = [], getDynSymbolTable = []\<rparr>,
      symoff = 256, symnum = 2, indirsymoff = 280, indirsymnum = 3\<rparr>"

text \<open>Two objects have the same symbol table and the same dynamic symbol table.\<close>

definition sameTables :: "BinaryObject \<Rightarrow> BinaryObject \<Rightarrow> bool" where
  "sameTables b b' =
     (getSymbolTable b' = getSymbolTable b \<and> getDynSymbolTable b' = getDynSymbolTable b)"


text \<open>
  The file offsets of the sections whose address is the offset read from the load
  command count from \<open>B\<close>.
\<close>

definition offsetsFrom :: "quint32 \<Rightarrow> BinaryObject \<Rightarrow> bool" where
  "offsetsFrom B b =
     list_all (\<lambda>sec. getType sec \<in> {String, FuncStarts, CodeSig, Symbols, DynSymbols} \<longrightarrow>
                  getOffset sec = B + ucast (getAddress sec)) (getSections b)"

text \<open>The object that \<open>parseHeader\<close> decodes from the second slice of \<open>fatStubs\<close>.\<close>

definition fatStubsObject:: BinaryObject where
  "fatStubsObject =
     \<lparr>getSystemBits = 32, isLittleEndian = True, getCpuType = X86,
      getCpuSubType = I386, getFileType = Execute,
      getSections =
        [\<lparr>getType = SymbolStubs, getName = ''Symbol Stubs'', getAddress = 0x1000,
          getSize = 18, getOffset = 328, getData = take 18 (drop 328 fatStubs)\<rparr>,
         \<lparr>getType = String, getName = ''String Table'', getAddress = 292,
          getSize = 8, getOffset = 320, getData = take 8 (drop 320 fatStubs)\<rparr>,
         \<lparr>getType = Symbols, getName = ''Symbol Table'', getAddress = 256,
          getSize = 24, getOffset = 284, getData = take 24 (drop 284 fatStubs)\<rparr>,
         \<lparr>getType = DynSymbols, getName = ''Dynamic Symbol Table'', getAddress = 280,
          getSize = 12, getOffset = 308, getData = take 12 (drop 308 fatStubs)\<rparr>],
      getSymbolTable =
        [\<lparr>getIndex = 0, getString = ''foo'', getValue = 3\<rparr>,
         \<lparr>getIndex = 0, getString = ''foo'', getValue = 0\<rparr>],
      getDynSymbolTable =
        [\<lparr>getIndex = 0, getString = ''foo'', getValue = 0x1000\<rparr>,
         \<lparr>getIndex = 0, getString = ''foo'', getValue = 0x1006\<rparr>,
         \<lparr>getIndex = 0, getString = ''foo'', getValue = 0x100C\<rparr>]\<rparr>"

text \<open>
  A step only moves the reader when the reader it yields differs from the reader it
  starts on in the position at most.
\<close>

definition moves :: "'a step \<Rightarrow> bool" where
  "moves m = (\<forall>r x r'. m r = Inr (x, r') \<longrightarrow> (\<exists>p. r' = r\<lparr>pos := p\<rparr>))"

text \<open>
  The value of an address-sized field at the position \<open>p\<close> of the file: 32 bits wide in
  a 32-bit slice and 64 bits wide otherwise.
\<close>

definition addrAt :: "nat \<Rightarrow> Reader \<Rightarrow> nat \<Rightarrow> quint64" where
  "addrAt bits r p = (if bits = 32 then ucast (wordAt r 4 p :: quint32) else wordAt r 8 p)"

text \<open>
  The type and the name under which a section of the segment __TEXT is kept, by the
  name in its section record; other sections are not kept.
\<close>

definition keptAs :: "string \<Rightarrow> (SectionType \<times> string) option" where
  "keptAs secname =
     (if secname = ''__text'' then Some (Text, ''Program'')
      else if secname = ''__symbol_stub'' \<or> secname = ''__stubs'' then
        Some (SymbolStubs, ''Symbol Stubs'')
      else if secname = ''__cstring'' then Some (CString, ''C-Strings'')
      else if secname = ''__objc_methname'' then Some (CString, ''ObjC Method Names'')
      else None)"

text \<open>
  The type of the load command that gives the offset of a section which is not taken
  from a segment: LC_SYMTAB for the String Table and the Symbol Table, LC_DYSYMTAB for
  the Dynamic Symbol Table, LC_FUNCTION_STARTS and LC_CODE_SIGNATURE.
\<close>

definition commandOf :: "SectionType \<Rightarrow> quint32" where
  "commandOf t =
     (case t of String \<Rightarrow> 2 | Symbols \<Rightarrow> 2 | DynSymbols \<Rightarrow> 0xB | FuncStarts \<Rightarrow> 0x26
      | CodeSig \<Rightarrow> 0x1D | _ \<Rightarrow> 0)"

text \<open>
  The position of the field that holds the offset of a section of the type \<open>t\<close>, in the
  record that starts at the position \<open>p\<close>. In a section record the offset follows the
  two names of 16 bytes, the address and the size. In a load command, which starts
  with its type and its size, the offset of the symbol table is the third word of
  LC_SYMTAB and that of the string table the fifth; the offset of the indirect symbol
  table is the fifteenth word of LC_DYSYMTAB; the offset of the function starts and of
  the code signature is the third word of the command.
\<close>

definition offsetField :: "nat \<Rightarrow> nat \<Rightarrow> SectionType \<Rightarrow> nat" where
  "offsetField bits p t =
     (case t of String \<Rightarrow> p + 16 | Symbols \<Rightarrow> p + 8 | DynSymbols \<Rightarrow> p + 56
      | FuncStarts \<Rightarrow> p + 8 | CodeSig \<Rightarrow> p + 8
      | _ \<Rightarrow> p + 32 + 2 * (if bits = 32 then 4 else 8))"

text \<open>
  The section \<open>sec\<close> goes back to the record at the position \<open>p\<close> of the file: the
  field of the offset lies within the file, and either the record is a section record
  of the segment __TEXT whose name is kept under the type and the name of \<open>sec\<close>, and
  whose address and size are those of \<open>sec\<close>; or the record is the load command for
  the type of \<open>sec\<close>, the address of \<open>sec\<close> is the offset in the record, and the size of
  \<open>sec\<close> is the word after the offset where the command gives a size.
\<close>

definition fromRecord :: "nat \<Rightarrow> Reader \<Rightarrow> nat \<Rightarrow> Section \<Rightarrow> bool" where
  "fromRecord bits r p sec =
     (let t = getType sec; f = offsetField bits p t
      in f + 4 \<le> length (dev r) \<and>
         (if t \<in> {Text, SymbolStubs, CString} then
            QString (take 16 (drop (p + 16) (dev r))) = ''__TEXT'' \<and>
            keptAs (QString (take 16 (drop p (dev r)))) = Some (t, getName sec) \<and>
            getAddress sec = addrAt bits r (p + 32) \<and>
            getSize sec = addrAt bits r (p + 32 + (if bits = 32 then 4 else 8))
          else
            (wordAt r 4 p :: quint32) = commandOf t \<and>
            getAddress sec = ucast (wordAt r 4 f :: quint32) \<and>
            (t \<in> {String, FuncStarts, CodeSig} \<longrightarrow>
               getSize sec = ucast (wordAt r 4 (f + 4) :: quint32))))"

text \<open>
  Every section of the list goes back to a record of the file, and its file offset is
  \<open>B\<close> plus the offset field of that record, in the arithmetic of \<open>quint32\<close>.
\<close>

definition offsetsRead :: "quint32 \<Rightarrow> nat \<Rightarrow> Reader \<Rightarrow> Section list \<Rightarrow> bool" where
  "offsetsRead B bits r secs =
     list_all (\<lambda>sec. \<exists>p. fromRecord bits r p sec \<and>
                 getOffset sec = B + wordAt r 4 (offsetField bits p (getType sec))) secs"

text \<open>
  The offsets of the two symbol tables in the local variables, where their counts are
  not zero, are the offset fields of an LC_SYMTAB and of an LC_DYSYMTAB command of
  the file.
\<close>

definition localsRead :: "Reader \<Rightarrow> Locals \<Rightarrow> bool" where
  "localsRead r st =
     ((symnum st \<noteq> 0 \<longrightarrow>
         (\<exists>p. p + 12 \<le> length (dev r) \<and> (wordAt r 4 p :: quint32) = 2 \<and>
              symoff st = wordAt r 4 (p + 8))) \<and>
      (indirsymnum st \<noteq> 0 \<longrightarrow>
         (\<exists>p. p + 60 \<le> length (dev r) \<and> (wordAt r 4 p :: quint32) = 0xB \<and>
              indirsymoff st = wordAt r 4 (p + 56))))"

text \<open>
  The data of a load command: the branch of the loop over the load commands that is
  taken for the type, after the type and the size of the command have been read.
\<close>

definition commandData :: "quint32 \<Rightarrow> nat \<Rightarrow> Locals \<Rightarrow> quint32 \<Rightarrow> quint32 \<Rightarrow> Locals step" where
  "commandData offset systemBits st type cmdsize =
      (if type = 1 \<or> type = 25 then lcSegment offset systemBits st
       else if type = 0x22 \<or> type = 0x22 OR 0x80000000 then
         andThen (skipUInt32 10) (\<lambda>_. ret st)
       else if type = 2 then lcSymtab offset st
       else if type = 0xB then lcDysymtab st
       else if type = 0xC \<or> type = 0xD \<or> type = 0x18 + 0x80000000 then
         andThen (checked getUInt32) (\<lambda>liboffset.
         andThen (skipUInt32 3) (\<lambda>_.
         andThen (readName cmdsize liboffset) (\<lambda>_. ret st)))
       else if type = 0xE \<or> type = 0x27 then
         andThen (checked getUInt32) (\<lambda>noffset.
         andThen (readName cmdsize noffset) (\<lambda>_. ret st))
       else if type = 0x1B then
         andThen (untested (read 16)) (\<lambda>_. ret st)
       else if type = 0x24 then
         andThen (skipUInt32 2) (\<lambda>_. ret st)
       else if type = 0x2A then
         andThen (checked getUInt64) (\<lambda>_. ret st)
       else if type = 0x28 OR 0x80000000 then
         andThen (checked getUInt64) (\<lambda>_.
         andThen (checked getUInt64) (\<lambda>_. ret st))
       else if type = 0x26 \<or> type = 0x2B \<or> type = 0x1E \<or> type = 0x1D then
         lcLinkedit offset type st
       else if type = 0x29 then
         andThen (checked getUInt32) (\<lambda>_.
         andThen (checked getUInt16) (\<lambda>_.
         andThen (checked getUInt16) (\<lambda>_. ret st)))
       else if type = 0x4 \<or> type = 0x5 then
         andThen (checked getUInt32) (\<lambda>flavor.
         andThen (checked getUInt32) (\<lambda>count.
         andThen (untested (read (unat (flavor * count)))) (\<lambda>_. ret st)))
       else if type = 0x1C + 0x80000000 then
         andThen (checked getUInt32) (\<lambda>off.
         andThen (readName cmdsize off) (\<lambda>_. ret st))
       else fail ProcessExit)"

text \<open>
  The object that \<open>parseHeader\<close> decodes from the slice of \<open>fatWrap\<close>.
\<close>

definition fatWrapObject :: BinaryObject where
  "fatWrapObject =
     \<lparr>getSystemBits = 32, isLittleEndian = True, getCpuType = X86,
      getCpuSubType = I386, getFileType = Execute,
      getSections =
        [\<lparr>getType = String, getName = ''String Table'', getAddress = 0xFFFFFFF0,
          getSize = 4, getOffset = 12, getData = take 4 (drop 12 fatWrap)\<rparr>],
      getSymbolTable = [], getDynSymbolTable = []\<rparr>"



section \<open>Facts about the reader\<close>

lemma read_length: "length (fst (read n r)) = min n (length (dev r) - pos r)"
  by (simp add: read_def Let_def)

lemma getUInt_None_iff:
  "0 < n \<Longrightarrow> fst (getUInt n r) = (None :: 'a::len word option) \<longleftrightarrow> length (dev r) < pos r + n"
  by (auto simp: getUInt_def read_def Let_def)

lemma getUInt_Some:
  "pos r + n \<le> length (dev r) \<Longrightarrow>
   getUInt n r =
     (Some (wordLE (if littleEndian r then take n (drop (pos r) (dev r))
                    else rev (take n (drop (pos r) (dev r))))),
      r\<lparr>pos := pos r + n\<rparr>)"
  by (auto simp add: getUInt_def read_def Let_def min_def)

section \<open>Detection\<close>

text \<open>
  Claim C7. \<open>detect\<close> is true exactly when the file opens, holds at least 4 bytes, and
  its first 4 bytes, read as a 32-bit value in the reader's byte order, are one of the
  six magic constants. A file that cannot be opened, a stream shorter than 4 bytes and
  any other 4-byte value give false. \<open>detect\<close> is a total function into \<open>bool\<close>: it has
  no other outcome.
\<close>

theorem detect_iff:
  "detect le0 None = False \<and>
   detect le0 (Some f) =
     (4 \<le> length f \<and>
      (wordLE (if le0 then take 4 f else rev (take 4 f)) :: quint32)
        \<in> {0xFEEDFACE, 0xFEEDFACF, 0xECAFDEEF, 0xFCAFDEEF, 0xCAFEBABE, 0xBEBAFECA})"
proof (cases "4 \<le> length f")
  case True
  then have "getUInt32 (newReader le0 f) =
      (Some (wordLE (if le0 then take 4 f else rev (take 4 f))), (newReader le0 f)\<lparr>pos := 4\<rparr>)"
    using getUInt_Some [of "newReader le0 f" 4, where 'a = 32]
    by (simp add: getUInt32_def newReader_def)
  with True show ?thesis
    by (simp add: detect_def)
next
  case False
  then have "fst (getUInt32 (newReader le0 f)) = None"
    using getUInt_None_iff [of 4 "newReader le0 f", where 'a = 32]
    by (simp add: getUInt32_def newReader_def)
  with False show ?thesis
    by (cases "getUInt32 (newReader le0 f)") (simp add: detect_def)
qed

section \<open>Steps and what they ensure\<close>

lemma ensuresD: "ensures m Q \<Longrightarrow> m r = Inr (x, r') \<Longrightarrow> Q x"
  by (auto simp: ensures_def)

lemma ensures_ret: "Q x \<Longrightarrow> ensures (ret x) Q"
  by (simp add: ensures_def ret_def)

lemma ensures_fail: "ensures (fail e) Q"
  by (simp add: ensures_def fail_def)

lemma ensures_andThen: "(\<And>x. ensures (f x) Q) \<Longrightarrow> ensures (andThen m f) Q"
  by (auto simp: ensures_def andThen_def split: sum.splits)

lemma ensures_andThen2:
  "ensures m P \<Longrightarrow> (\<And>x. P x \<Longrightarrow> ensures (f x) Q) \<Longrightarrow> ensures (andThen m f) Q"
  by (fastforce simp: ensures_def andThen_def split: sum.splits)

lemma ensures_if:
  "(c \<Longrightarrow> ensures a Q) \<Longrightarrow> (\<not> c \<Longrightarrow> ensures b Q) \<Longrightarrow> ensures (if c then a else b) Q"
  by simp

lemma ensures_liftE: "(\<And>v. x = Inr v \<Longrightarrow> Q v) \<Longrightarrow> ensures (liftE x) Q"
  by (auto simp: ensures_def liftE_def split: sum.splits)

lemma ensures_prod:
  "(\<And>a b. p = (a, b) \<Longrightarrow> ensures (f a b) Q) \<Longrightarrow> ensures (case p of (a, b) \<Rightarrow> f a b) Q"
  by (cases p) simp

lemma sameHeader_refl: "sameHeader b b"
  by (simp add: sameHeader_def)

lemma sameHeader_trans: "sameHeader a b \<Longrightarrow> sameHeader b c \<Longrightarrow> sameHeader a c"
  by (simp add: sameHeader_def)

lemma sameHeader_addSection: "sameHeader b (addSection sec b)"
  by (simp add: sameHeader_def addSection_def)

lemma sameHeader_storeSection: "sameHeader b (storeSection off sn sg a sz fo b)"
  by (simp add: storeSection_def sameHeader_addSection sameHeader_refl)

lemma readSection_sameHeader: "ensures (readSection off bits b) (sameHeader b)"
  unfolding readSection_def
  by (intro ensures_andThen ensures_ret sameHeader_storeSection)

lemma readSections_sameHeader: "ensures (readSections off bits n b) (sameHeader b)"
proof (induction n arbitrary: b)
  case 0
  show ?case by (simp add: ensures_ret sameHeader_refl)
next
  case (Suc n)
  show ?case
    unfolding readSections.simps
  proof (rule ensures_andThen2 [OF readSection_sameHeader])
    fix x assume "sameHeader b x"
    with Suc [of x] show "ensures (readSections off bits n x) (sameHeader b)"
      by (auto simp: ensures_def intro: sameHeader_trans)
  qed
qed

lemma loadCommand_sameHeader:
  "ensures (loadCommand off bits st) (\<lambda>st'. sameHeader (binaryObject st) (binaryObject st'))"
proof -
  have seg: "ensures (lcSegment off bits st) (\<lambda>st'. sameHeader (binaryObject st) (binaryObject st'))"
    unfolding lcSegment_def
    apply (intro ensures_andThen2 [OF readSections_sameHeader] ensures_andThen)
    apply (rule ensures_ret)
    apply simp
    done
  have sym: "ensures (lcSymtab off st) (\<lambda>st'. sameHeader (binaryObject st) (binaryObject st'))"
    unfolding lcSymtab_def
    by (intro ensures_andThen ensures_ret) (simp add: sameHeader_addSection)
  have dys: "ensures (lcDysymtab st) (\<lambda>st'. sameHeader (binaryObject st) (binaryObject st'))"
    unfolding lcDysymtab_def
    by (intro ensures_andThen ensures_ret) (simp add: sameHeader_refl)
  have lnk: "ensures (lcLinkedit off ty st) (\<lambda>st'. sameHeader (binaryObject st) (binaryObject st'))" for ty
    unfolding lcLinkedit_def
    by (intro ensures_andThen ensures_ret) (simp add: sameHeader_addSection sameHeader_refl)
  show ?thesis
    unfolding loadCommand_def
    by (intro ensures_andThen ensures_if ensures_fail seg sym dys lnk ensures_ret sameHeader_refl)
qed

lemma loadCommands_sameHeader:
  "ensures (loadCommands off bits n st) (\<lambda>st'. sameHeader (binaryObject st) (binaryObject st'))"
proof (induction n arbitrary: st)
  case 0
  show ?case by (simp add: ensures_ret sameHeader_refl)
next
  case (Suc n)
  show ?case
    unfolding loadCommands.simps
  proof (rule ensures_andThen2 [OF loadCommand_sameHeader])
    fix x :: Locals assume "sameHeader (binaryObject st) (binaryObject x)"
    with Suc [of x] show "ensures (loadCommands off bits n x) (\<lambda>st'. sameHeader (binaryObject st) (binaryObject st'))"
      by (auto simp: ensures_def intro: sameHeader_trans)
  qed
qed

lemma dynPass_sameHeader: "sameHeader b (dynPass sn isn t d b)"
  by (simp add: dynPass_def sameHeader_def)

lemma finishHeader_sameHeader:
  "ensures (finishHeader off bits st) (sameHeader (binaryObject st))"
proof -
  have a: "ensures (readSymbolTable off bits st) (\<lambda>p. sameHeader (binaryObject st) (snd p))"
    unfolding readSymbolTable_def
    by (intro ensures_if ensures_andThen ensures_prod ensures_ret)
       (simp_all add: sameHeader_addSection sameHeader_refl)
  have b: "ensures (readDynSymbolTable off st b1) (\<lambda>p. sameHeader b1 (snd p))" for b1
    unfolding readDynSymbolTable_def
    by (intro ensures_if ensures_andThen ensures_prod ensures_ret)
       (simp_all add: sameHeader_addSection sameHeader_refl)
  show ?thesis
    unfolding finishHeader_def
    apply (rule ensures_andThen2 [OF a])
    apply (rule ensures_prod)
    apply (rule ensures_andThen2 [OF b])
    apply (rule ensures_prod)
    apply (intro ensures_andThen ensures_ret)
    apply (rule sameHeader_trans [OF _ dynPass_sameHeader])
    apply (auto simp: sameHeader_def)
    done
qed


lemma andThen_modify: "andThen (modify h) f r = f () (h r)"
  by (simp add: andThen_def modify_def)

lemma andThen_checked:
  "andThen (checked g) f r =
     (case g r of (None, r') \<Rightarrow> Inl ReadFailed | (Some v, r') \<Rightarrow> f v r')"
  by (simp add: andThen_def checked_def split: prod.splits option.splits)

lemma andThen_untested: "andThen (untested g) f r = f (fst (g r)) (snd (g r))"
  by (simp add: andThen_def untested_def split: prod.splits)

lemma andThen_ret: "andThen (ret x) f = f x"
  by (rule ext) (simp add: andThen_def ret_def)

lemma andThen_assoc: "andThen (andThen m g) f = andThen m (\<lambda>x. andThen (g x) f)"
  by (rule ext) (simp add: andThen_def split: sum.splits)

lemma andThen_Inr:
  assumes "andThen m f r = Inr (y, r'')"
  obtains x r' where "m r = Inr (x, r')" and "f x r' = Inr (y, r'')"
  using assms by (auto simp: andThen_def split: sum.splits)

lemma getUInt32_at:
  "getUInt32 r = (Some v, r') \<Longrightarrow>
   pos r + 4 \<le> length (dev r) \<and>
   v = wordLE (if littleEndian r then take 4 (drop (pos r) (dev r))
               else rev (take 4 (drop (pos r) (dev r)))) \<and>
   r' = r\<lparr>pos := pos r + 4\<rparr>"
proof -
  assume a: "getUInt32 r = (Some v, r')"
  have le: "pos r + 4 \<le> length (dev r)"
  proof (rule ccontr)
    assume "\<not> pos r + 4 \<le> length (dev r)"
    then have "fst (getUInt32 r) = None"
      using getUInt_None_iff [of 4 r, where 'a = 32] by (simp add: getUInt32_def)
    with a show False by simp
  qed
  from getUInt_Some [OF le, where 'a = 32] a le show ?thesis
    by (simp add: getUInt32_def)
qed

lemma readHeader_magic:
  assumes "readHeader offset r = Inr ((st, ncmds), r1)"
  shows "unat offset + 4 \<le> length (dev r) \<and>
     getSystemBits (binaryObject st) =
       systemBitsOf (wordLE (take 4 (drop (unat offset) (dev r)))) \<and>
     isLittleEndian (binaryObject st) =
       littleEndianOf (wordLE (take 4 (drop (unat offset) (dev r))))"
proof -
  let ?r0 = "setLittleEndian True (seek (unat offset) r)"
  obtain magic r' where m: "getUInt32 ?r0 = (Some magic, r')"
    using assms
    by (cases "getUInt32 ?r0")
       (auto simp: readHeader_def andThen_modify andThen_checked split: option.splits)
  from getUInt32_at [OF m]
  have le: "unat offset + 4 \<le> length (dev r)"
    and mg: "magic = wordLE (take 4 (drop (unat offset) (dev r)))"
    by (simp_all add: seek_def setLittleEndian_def)
  from assms m have
    "getSystemBits (binaryObject st) = systemBitsOf magic \<and>
     isLittleEndian (binaryObject st) = littleEndianOf magic"
    by (auto simp: readHeader_def andThen_modify andThen_checked andThen_untested
          andThen_ret andThen_assoc ret_def
        split: option.splits prod.splits if_splits)
  with le mg show ?thesis by simp
qed

section \<open>The magic number of a slice\<close>

text \<open>
  Claim C6, as amended. \<open>parseHeader\<close> seeks to the base offset, forces little-endian
  and reads the magic number again: a slice is decoded only if 4 bytes are left at the
  base offset. The bit width and the byte order of the object are those of the matching
  one of the four magic constants (0xFEEDFACE: 32-bit little-endian, 0xFEEDFACF: 64-bit
  little-endian, 0xECAFDEEF: 32-bit big-endian, 0xFCAFDEEF: 64-bit big-endian). The magic
  number is not validated: a slice whose magic number is none of the four is decoded as
  a 32-bit little-endian slice.
\<close>

theorem parseHeader_magic:
  assumes "parseHeader offset size' r = Inr (b, r')"
  shows "unat offset + 4 \<le> length (dev r) \<and>
     (let magic = wordLE (take 4 (drop (unat offset) (dev r))) :: quint32
      in getSystemBits b = (if magic = 0xFEEDFACF \<or> magic = 0xFCAFDEEF then 64 else 32) \<and>
         isLittleEndian b = (magic \<noteq> 0xECAFDEEF \<and> magic \<noteq> 0xFCAFDEEF))"
proof -
  from assms obtain p r1 where
    h: "readHeader offset r = Inr (p, r1)" and
    rest: "(case p of (st, ncmds) \<Rightarrow>
             andThen (loadCommands offset (getSystemBits (binaryObject st)) (unat ncmds) st)
               (finishHeader offset (getSystemBits (binaryObject st)))) r1 = Inr (b, r')"
    unfolding parseHeader_def by (rule andThen_Inr)
  obtain st ncmds where p: "p = (st, ncmds)" by (cases p)
  from rest p obtain st2 r2 where
    l: "loadCommands offset (getSystemBits (binaryObject st)) (unat ncmds) st r1 = Inr (st2, r2)"
    and f: "finishHeader offset (getSystemBits (binaryObject st)) st2 r2 = Inr (b, r')"
    by (auto elim: andThen_Inr)
  have "sameHeader (binaryObject st) (binaryObject st2)"
    using ensuresD [OF loadCommands_sameHeader l] .
  moreover have "sameHeader (binaryObject st2) b"
    using ensuresD [OF finishHeader_sameHeader f] .
  ultimately have s: "sameHeader (binaryObject st) b"
    by (rule sameHeader_trans)
  from readHeader_magic [OF h [unfolded p]] s show ?thesis
    by (auto simp: Let_def sameHeader_def systemBitsOf_def littleEndianOf_def)
qed

theorem parseHeader_magic_witness:
  "parseHeader 0 0 (newReader True slice64BE) =
     Inr (\<lparr>getSystemBits = 64, isLittleEndian = False, getCpuType = PowerPC_64,
            getCpuSubType = I386, getFileType = Execute, getSections = [],
            getSymbolTable = [], getDynSymbolTable = []\<rparr>,
          \<lparr>dev = slice64BE, pos = 32, littleEndian = False\<rparr>) \<and>
   wordLE (take 4 (drop (unat (0 :: quint32)) (dev (newReader True slice64BE)))) =
     (0xFCAFDEEF :: quint32) \<and>
   unat (0 :: quint32) + 4 \<le> length (dev (newReader True slice64BE)) \<and>
   (let magic = wordLE (take 4 (drop (unat (0 :: quint32)) (dev (newReader True slice64BE))))
                  :: quint32
    in getSystemBits
         \<lparr>getSystemBits = 64, isLittleEndian = False, getCpuType = PowerPC_64,
          getCpuSubType = I386, getFileType = Execute, getSections = [],
          getSymbolTable = [], getDynSymbolTable = []\<rparr> =
         (if magic = 0xFEEDFACF \<or> magic = 0xFCAFDEEF then 64 else 32) \<and>
       isLittleEndian
         \<lparr>getSystemBits = 64, isLittleEndian = False, getCpuType = PowerPC_64,
          getCpuSubType = I386, getFileType = Execute, getSections = [],
          getSymbolTable = [], getDynSymbolTable = []\<rparr> =
         (magic \<noteq> 0xECAFDEEF \<and> magic \<noteq> 0xFCAFDEEF))"
proof -
  have h: "parseHeader 0 0 (newReader True slice64BE) =
     Inr (\<lparr>getSystemBits = 64, isLittleEndian = False, getCpuType = PowerPC_64,
            getCpuSubType = I386, getFileType = Execute, getSections = [],
            getSymbolTable = [], getDynSymbolTable = []\<rparr>,
          \<lparr>dev = slice64BE, pos = 32, littleEndian = False\<rparr>)"
    by code_simp
  have m: "wordLE (take 4 (drop (unat (0 :: quint32)) (dev (newReader True slice64BE)))) =
     (0xFCAFDEEF :: quint32)"
    by code_simp
  from h m parseHeader_magic [OF h] show ?thesis
    by (intro conjI) blast+
qed

text \<open>
  The claim as stated fails: the magic number of \<open>sliceBadMagic\<close> is none of the four,
  and the slice is decoded.
\<close>

theorem parse_bad_magic_decoded:
  "parse True (Some sliceBadMagic) [] =
     Returned True
       [\<lparr>getSystemBits = 32, isLittleEndian = True, getCpuType = X86,
         getCpuSubType = I386, getFileType = Execute, getSections = [],
         getSymbolTable = [], getDynSymbolTable = []\<rparr>]"
  by code_simp

section \<open>An unrecognized load command\<close>

lemma andThen_Inl: "m r = Inl e \<Longrightarrow> andThen m f r = Inl e"
  by (simp add: andThen_def)

lemma andThen_Inr_apply: "m r = Inr (x, r') \<Longrightarrow> andThen m f r = f x r'"
  by (simp add: andThen_def)

lemma loadCommands_add:
  "loadCommands off bits (k + m) st =
     andThen (loadCommands off bits k st) (loadCommands off bits m)"
proof (induction k arbitrary: st)
  case 0
  show ?case by (simp add: andThen_ret)
next
  case (Suc k)
  have "loadCommands off bits (k + m) =
      (\<lambda>x. andThen (loadCommands off bits k x) (loadCommands off bits m))"
    by (rule ext) (rule Suc)
  then show ?case by (simp add: andThen_assoc)
qed

lemma loadCommand_unrecognized:
  assumes "getUInt32 r = (Some type, r1)" and "getUInt32 r1 = (Some cmdsize, r2)"
    and "type \<notin> {1, 25, 0x22, 0x80000022, 2, 0xB, 0xC, 0xD, 0x80000018, 0xE, 0x27, 0x1B,
                 0x24, 0x2A, 0x80000028, 0x26, 0x2B, 0x1E, 0x1D, 0x29, 4, 5, 0x8000001C}"
  shows "loadCommand off bits st r = Inl ProcessExit"
  using assms
  by (simp add: loadCommand_def andThen_checked fail_def)


text \<open>
  Claim C1, as amended. When the loop over the load commands comes to a command whose
  type is none of the recognized ones, after any number \<open>k\<close> of commands decoded
  before it, the process ends there (\<open>exit(0)\<close>), whatever \<open>cmdsize\<close> is: nothing is
  skipped, \<open>parseHeader\<close> yields no object, the effects of the commands before it are
  lost with the process, and no later slice is decoded.
\<close>

theorem unrecognized_command_exits:
  assumes "readHeader offset r = Inr ((st, ncmds), r1)"
    and "k < unat ncmds"
    and "loadCommands offset (getSystemBits (binaryObject st)) k st r1 = Inr (st', r2)"
    and "getUInt32 r2 = (Some type, r3)"
    and "getUInt32 r3 = (Some cmdsize, r4)"
    and "type \<notin> {1, 25, 0x22, 0x80000022, 2, 0xB, 0xC, 0xD, 0x80000018, 0xE, 0x27, 0x1B,
                 0x24, 0x2A, 0x80000028, 0x26, 0x2B, 0x1E, 0x1D, 0x29, 4, 5, 0x8000001C}"
  shows "parseHeader offset size' r = Inl ProcessExit \<and>
         parseArchs ((offset, size') # archs) objects r = Exited"
proof -
  let ?bits = "getSystemBits (binaryObject st)"
  from less_imp_Suc_add [OF assms(2)] obtain m where "unat ncmds = Suc (k + m)" ..
  then have n: "unat ncmds = k + Suc m"
    by simp
  have c: "loadCommand offset ?bits st' r2 = Inl ProcessExit"
    using assms(4,5,6) by (rule loadCommand_unrecognized)
  have d: "loadCommands offset ?bits (Suc m) st' r2 = Inl ProcessExit"
    by (simp add: andThen_def c)
  have "loadCommands offset ?bits (k + Suc m) st r1 = loadCommands offset ?bits (Suc m) st' r2"
    by (subst loadCommands_add) (simp add: andThen_def assms(3))
  then have e: "loadCommands offset ?bits (unat ncmds) st r1 = Inl ProcessExit"
    unfolding n using d by (rule trans)
  have "parseHeader offset size' r =
      andThen (loadCommands offset ?bits (unat ncmds) st) (finishHeader offset ?bits) r1"
    unfolding parseHeader_def by (simp add: andThen_def [of "readHeader offset"] assms(1))
  also have "\<dots> = Inl ProcessExit"
    by (simp add: andThen_def e)
  finally have p: "parseHeader offset size' r = Inl ProcessExit" .
  then show ?thesis
    by (simp add: stopped_def)
qed

theorem unrecognized_command_exits_witness:
  "readHeader 0 (newReader True sliceUnknownCmd) =
     Inr ((\<lparr>binaryObject =
              \<lparr>getSystemBits = 32, isLittleEndian = True, getCpuType = X86,
               getCpuSubType = I386, getFileType = Execute, getSections = [],
               getSymbolTable = [], getDynSymbolTable = []\<rparr>,
            symoff = 0, symnum = 0, indirsymoff = 0, indirsymnum = 0\<rparr>, 3),
          \<lparr>dev = sliceUnknownCmd, pos = 28, littleEndian = True\<rparr>) \<and>
   (1 :: nat) < unat (3 :: quint32) \<and>
   loadCommands 0 32 1
     \<lparr>binaryObject =
        \<lparr>getSystemBits = 32, isLittleEndian = True, getCpuType = X86,
         getCpuSubType = I386, getFileType = Execute, getSections = [],
         getSymbolTable = [], getDynSymbolTable = []\<rparr>,
      symoff = 0, symnum = 0, indirsymoff = 0, indirsymnum = 0\<rparr>
     \<lparr>dev = sliceUnknownCmd, pos = 28, littleEndian = True\<rparr> =
     Inr (\<lparr>binaryObject =
             \<lparr>getSystemBits = 32, isLittleEndian = True, getCpuType = X86,
              getCpuSubType = I386, getFileType = Execute,
              getSections = [newSection FuncStarts ''Function Starts'' 0x100 0 0x100],
              getSymbolTable = [], getDynSymbolTable = []\<rparr>,
           symoff = 0, symnum = 0, indirsymoff = 0, indirsymnum = 0\<rparr>,
          \<lparr>dev = sliceUnknownCmd, pos = 44, littleEndian = True\<rparr>) \<and>
   getUInt32 \<lparr>dev = sliceUnknownCmd, pos = 44, littleEndian = True\<rparr> =
     (Some 0x7F, \<lparr>dev = sliceUnknownCmd, pos = 48, littleEndian = True\<rparr>) \<and>
   getUInt32 \<lparr>dev = sliceUnknownCmd, pos = 48, littleEndian = True\<rparr> =
     (Some 8, \<lparr>dev = sliceUnknownCmd, pos = 52, littleEndian = True\<rparr>) \<and>
   parseHeader 0 0 (newReader True sliceUnknownCmd) = Inl ProcessExit \<and>
   parseArchs [(0, 0)] [] (newReader True sliceUnknownCmd) = Exited"
proof -
  let ?b = "\<lparr>getSystemBits = 32, isLittleEndian = True, getCpuType = X86,
               getCpuSubType = I386, getFileType = Execute, getSections = [],
               getSymbolTable = [], getDynSymbolTable = []\<rparr>"
  let ?st = "\<lparr>binaryObject = ?b, symoff = 0, symnum = 0, indirsymoff = 0, indirsymnum = 0\<rparr>"
  have h1: "readHeader 0 (newReader True sliceUnknownCmd) =
     Inr ((?st, 3), \<lparr>dev = sliceUnknownCmd, pos = 28, littleEndian = True\<rparr>)"
    by code_simp
  have h2: "(1 :: nat) < unat (3 :: quint32)"
    by simp
  have h3': "loadCommands 0 32 1 ?st
      \<lparr>dev = sliceUnknownCmd, pos = 28, littleEndian = True\<rparr> =
     Inr (\<lparr>binaryObject =
             \<lparr>getSystemBits = 32, isLittleEndian = True, getCpuType = X86,
              getCpuSubType = I386, getFileType = Execute,
              getSections = [newSection FuncStarts ''Function Starts'' 0x100 0 0x100],
              getSymbolTable = [], getDynSymbolTable = []\<rparr>,
           symoff = 0, symnum = 0, indirsymoff = 0, indirsymnum = 0\<rparr>,
          \<lparr>dev = sliceUnknownCmd, pos = 44, littleEndian = True\<rparr>)"
    by code_simp
  then have h3: "loadCommands 0 (getSystemBits (binaryObject ?st)) 1 ?st
      \<lparr>dev = sliceUnknownCmd, pos = 28, littleEndian = True\<rparr> =
     Inr (\<lparr>binaryObject =
             \<lparr>getSystemBits = 32, isLittleEndian = True, getCpuType = X86,
              getCpuSubType = I386, getFileType = Execute,
              getSections = [newSection FuncStarts ''Function Starts'' 0x100 0 0x100],
              getSymbolTable = [], getDynSymbolTable = []\<rparr>,
           symoff = 0, symnum = 0, indirsymoff = 0, indirsymnum = 0\<rparr>,
          \<lparr>dev = sliceUnknownCmd, pos = 44, littleEndian = True\<rparr>)"
    by simp
  have h4: "getUInt32 \<lparr>dev = sliceUnknownCmd, pos = 44, littleEndian = True\<rparr> =
     (Some 0x7F, \<lparr>dev = sliceUnknownCmd, pos = 48, littleEndian = True\<rparr>)"
    by code_simp
  have h5: "getUInt32 \<lparr>dev = sliceUnknownCmd, pos = 48, littleEndian = True\<rparr> =
     (Some 8, \<lparr>dev = sliceUnknownCmd, pos = 52, littleEndian = True\<rparr>)"
    by code_simp
  have h6: "(0x7F :: quint32) \<notin> {1, 25, 0x22, 0x80000022, 2, 0xB, 0xC, 0xD, 0x80000018, 0xE, 0x27, 0x1B,
                 0x24, 0x2A, 0x80000028, 0x26, 0x2B, 0x1E, 0x1D, 0x29, 4, 5, 0x8000001C}"
    by simp
  note t = unrecognized_command_exits [OF h1 h2 h3 h4 h5 h6, of 0 "[]" "[]"]
  from h1 h2 h3' h4 h5 t show ?thesis
    by blast
qed

text \<open>
  The claim as stated fails: \<open>sliceUnknownCmd\<close> holds a command with an unrecognized type
  and the valid size 8 between two recognized commands, and decoding it does not
  succeed.
\<close>

theorem unrecognized_command_not_skipped:
  "parse True (Some sliceUnknownCmd) [] = Exited"
  by code_simp

section \<open>The reader's device\<close>

lemma keepsDevD: "keepsDev m \<Longrightarrow> m r = Inr (x, r') \<Longrightarrow> dev r' = dev r"
  by (auto simp: keepsDev_def)

lemma keepsDev_ret: "keepsDev (ret x)"
  by (simp add: keepsDev_def ret_def)

lemma keepsDev_fail: "keepsDev (fail e)"
  by (simp add: keepsDev_def fail_def)

lemma keepsDev_liftE: "keepsDev (liftE x)"
  by (auto simp: keepsDev_def liftE_def split: sum.splits)

lemma keepsDev_andThen: "keepsDev m \<Longrightarrow> (\<And>x. keepsDev (f x)) \<Longrightarrow> keepsDev (andThen m f)"
  by (fastforce simp: keepsDev_def andThen_def split: sum.splits)

lemma keepsDev_if: "keepsDev a \<Longrightarrow> keepsDev b \<Longrightarrow> keepsDev (if c then a else b)"
  by simp

lemma keepsDev_prod: "(\<And>a b. keepsDev (f a b)) \<Longrightarrow> keepsDev (case p of (a, b) \<Rightarrow> f a b)"
  by (cases p) simp

lemma read_dev: "dev (snd (read n r)) = dev r"
  by (simp add: read_def Let_def)

lemma getUInt_dev: "dev (snd (getUInt n r)) = dev r"
  by (simp add: getUInt_def read_def Let_def)

lemma keepsDev_checked:
  assumes "\<And>r. dev (snd (g r)) = dev r"
  shows "keepsDev (checked g)"
  unfolding keepsDev_def
proof (intro allI impI)
  fix r x r' assume "checked g r = Inr (x, r')"
  then have "snd (g r) = r'"
    by (cases "g r") (auto simp: checked_def split: option.splits)
  with assms [of r] show "dev r' = dev r" by simp
qed

lemma keepsDev_untested:
  assumes "\<And>r. dev (snd (g r)) = dev r"
  shows "keepsDev (untested g)"
  unfolding keepsDev_def
proof (intro allI impI)
  fix r x r' assume "untested g r = Inr (x, r')"
  then have "snd (g r) = r'"
    by (cases "g r") (auto simp: untested_def)
  with assms [of r] show "dev r' = dev r" by simp
qed

lemma keepsDev_modify: "(\<And>r. dev (h r) = dev r) \<Longrightarrow> keepsDev (modify h)"
  by (simp add: keepsDev_def modify_def)

lemma keepsDev_getUInt32: "keepsDev (checked getUInt32)"
  by (rule keepsDev_checked) (simp add: getUInt32_def getUInt_dev)

lemma keepsDev_getUInt64: "keepsDev (checked getUInt64)"
  by (rule keepsDev_checked) (simp add: getUInt64_def getUInt_dev)

lemma keepsDev_getUInt16: "keepsDev (checked getUInt16)"
  by (rule keepsDev_checked) (simp add: getUInt16_def getUInt_dev)

lemma keepsDev_getUChar: "keepsDev (checked getUChar)"
  by (rule keepsDev_checked) (simp add: getUChar_def getUInt_dev)

lemma keepsDev_untested_getUInt32: "keepsDev (untested getUInt32)"
  by (rule keepsDev_untested) (simp add: getUInt32_def getUInt_dev)

lemma keepsDev_read: "keepsDev (untested (read n))"
  by (rule keepsDev_untested) (rule read_dev)

lemma keepsDev_seek: "keepsDev (modify (seek p))"
  by (rule keepsDev_modify) (simp add: seek_def)

lemma keepsDev_setLittleEndian: "keepsDev (modify (setLittleEndian b))"
  by (rule keepsDev_modify) (simp add: setLittleEndian_def)

lemma keepsDev_getPos: "keepsDev getPos"
  unfolding getPos_def by (rule keepsDev_untested) simp

lemmas keepsDev_basic =
  keepsDev_ret keepsDev_fail keepsDev_liftE keepsDev_andThen keepsDev_if keepsDev_prod
  keepsDev_getUInt32 keepsDev_getUInt64 keepsDev_getUInt16 keepsDev_getUChar
  keepsDev_untested_getUInt32 keepsDev_read keepsDev_seek keepsDev_setLittleEndian
  keepsDev_getPos

lemma keepsDev_skipUInt32: "keepsDev (skipUInt32 n)"
  by (induction n) (auto intro!: keepsDev_basic)

lemma keepsDev_getAddr: "keepsDev (getAddr bits)"
  unfolding getAddr_def by (intro keepsDev_basic)

lemma keepsDev_readSection: "keepsDev (readSection off bits b)"
  unfolding readSection_def by (intro keepsDev_basic keepsDev_skipUInt32 keepsDev_getAddr)

lemma keepsDev_readSections: "keepsDev (readSections off bits n b)"
  by (induction n arbitrary: b) (auto intro!: keepsDev_basic keepsDev_readSection)

lemma keepsDev_loadCommand: "keepsDev (loadCommand off bits st)"
  unfolding loadCommand_def lcSegment_def lcSymtab_def lcDysymtab_def lcLinkedit_def
    readName_def
  by (intro keepsDev_basic keepsDev_skipUInt32 keepsDev_getAddr keepsDev_readSections)

lemma keepsDev_loadCommands: "keepsDev (loadCommands off bits n st)"
  by (induction n arbitrary: st) (auto intro!: keepsDev_basic keepsDev_loadCommand)

lemma keepsDev_readSymbols: "keepsDev (readSymbols bits n acc)"
proof (induction n arbitrary: acc)
  case 0
  show ?case by (simp add: keepsDev_ret)
next
  case (Suc n)
  have "keepsDev (readSymbol bits acc)"
    unfolding readSymbol_def by (intro keepsDev_basic keepsDev_getAddr)
  with Suc show ?case
    by (auto intro!: keepsDev_andThen)
qed

lemma keepsDev_readDynSymbols: "keepsDev (readDynSymbols n acc)"
proof (induction n arbitrary: acc)
  case 0
  show ?case by (simp add: keepsDev_ret)
next
  case (Suc n)
  have "keepsDev (readDynSymbol acc)"
    unfolding readDynSymbol_def by (intro keepsDev_basic)
  with Suc show ?case
    by (auto intro!: keepsDev_andThen)
qed

lemma keepsDev_fillSections: "keepsDev (fillSections secs)"
  by (induction secs) (auto intro!: keepsDev_basic)

lemma keepsDev_finishHeader: "keepsDev (finishHeader off bits st)"
  unfolding finishHeader_def readSymbolTable_def readDynSymbolTable_def
  by (intro keepsDev_basic keepsDev_readSymbols keepsDev_readDynSymbols keepsDev_fillSections)

lemma keepsDev_readHeader: "keepsDev (readHeader off)"
  unfolding readHeader_def by (intro keepsDev_basic)

lemma keepsDev_parseHeader: "keepsDev (parseHeader off sz)"
  unfolding parseHeader_def
  by (intro keepsDev_basic keepsDev_readHeader keepsDev_loadCommands keepsDev_finishHeader)

lemma keepsDev_readFatArchs: "keepsDev (readFatArchs n archs)"
  by (induction n arbitrary: archs) (auto intro!: keepsDev_basic)

lemma keepsDev_readFatHeader: "keepsDev readFatHeader"
  unfolding readFatHeader_def by (intro keepsDev_basic keepsDev_readFatArchs)

text \<open>
  \<open>parseHeader\<close> starts with a seek and with the byte order: what it does depends on the
  bytes of the file only.
\<close>

lemma seek_newReader:
  "setLittleEndian True (seek p r) = setLittleEndian True (seek p (newReader le0 (dev r)))"
  by (cases r) (simp add: seek_def setLittleEndian_def newReader_def)

lemma readHeader_newReader: "readHeader off r = readHeader off (newReader le0 (dev r))"
  unfolding readHeader_def andThen_modify by (subst seek_newReader [of _ r le0]) (rule refl)

lemma parseHeader_newReader:
  "parseHeader off sz r = parseHeader off sz (newReader le0 (dev r))"
  unfolding parseHeader_def andThen_def by (subst readHeader_newReader [of off r le0]) (rule refl)


lemma parseArchs_newReader:
  "parseArchs archs objects r = parseArchs archs objects (newReader le0 (dev r))"
proof (induction archs arbitrary: objects r)
  case Nil
  show ?case by simp
next
  case (Cons a archs)
  let ?X = "parseHeader (fst a) (snd a) (newReader le0 (dev r))"
  have x: "parseHeader (fst a) (snd a) r = ?X"
    by (rule parseHeader_newReader)
  show ?case
  proof (cases ?X)
    case (Inl e)
    with x show ?thesis by simp
  next
    case (Inr p)
    obtain b r' where p: "p = (b, r')" by (cases p)
    from keepsDevD [OF keepsDev_parseHeader Inr [unfolded p]]
    have "dev r' = dev r" by (simp add: newReader_def)
    with Cons.IH [of "objects @ [b]" r']
    have "parseArchs archs (objects @ [b]) r' =
          parseArchs archs (objects @ [b]) (newReader le0 (dev r))"
      by simp
    moreover from Cons.IH [of "objects @ [b]" "newReader le0 (dev r)"]
    have "parseArchs archs (objects @ [b]) (newReader le0 (dev r)) =
          parseArchs archs (objects @ [b]) (newReader le0 (dev r))"
      by simp
    ultimately show ?thesis
      using x Inr p by simp
  qed
qed

lemma parseArchs_prefix_fails:
  assumes "parseArchs archs1 objects r = Returned True objects1"
    and "parseHeader (fst arch) (snd arch) (newReader True (dev r)) = Inl ReadFailed"
  shows "parseArchs (archs1 @ arch # archs2) objects r = Returned False objects1"
  using assms
proof (induction archs1 arbitrary: objects r)
  case Nil
  from Nil.prems(2) have "parseHeader (fst arch) (snd arch) r = Inl ReadFailed"
    by (subst parseHeader_newReader [of _ _ r True])
  with Nil.prems(1) show ?case
    by (simp add: stopped_def)
next
  case (Cons a archs1)
  show ?case
  proof (cases "parseHeader (fst a) (snd a) r")
    case (Inl e)
    with Cons.prems(1) show ?thesis
      by (cases e) (simp_all add: stopped_def)
  next
    case (Inr p)
    obtain b r' where p: "p = (b, r')" by (cases p)
    from keepsDevD [OF keepsDev_parseHeader Inr [unfolded p]]
    have d: "dev r' = dev r" .
    from Cons.prems(1) Inr p
    have "parseArchs archs1 (objects @ [b]) r' = Returned True objects1"
      by simp
    from Cons.IH [OF this] Cons.prems(2) d
    have "parseArchs (archs1 @ arch # archs2) (objects @ [b]) r' = Returned False objects1"
      by simp
    with Inr p show ?thesis
      by simp
  qed
qed

lemma parseArchs_success:
  assumes "parseArchs archs objects r = Returned True objs"
  shows "\<exists>bs. objs = objects @ bs \<and> length bs = length archs \<and>
           (\<forall>k<length archs. \<exists>r'.
               parseHeader (fst (archs ! k)) (snd (archs ! k)) (newReader True (dev r)) =
                 Inr (bs ! k, r'))"
  using assms
proof (induction archs arbitrary: objects r)
  case Nil
  then show ?case by simp
next
  case (Cons a archs)
  show ?case
  proof (cases "parseHeader (fst a) (snd a) r")
    case (Inl e)
    with Cons.prems show ?thesis
      by (cases e) (simp_all add: stopped_def)
  next
    case (Inr p)
    obtain b r' where p: "p = (b, r')" by (cases p)
    from keepsDevD [OF keepsDev_parseHeader Inr [unfolded p]]
    have d: "dev r' = dev r" .
    from Cons.prems Inr p
    have "parseArchs archs (objects @ [b]) r' = Returned True objs"
      by simp
    from Cons.IH [OF this] d obtain bs where
      bs: "objs = (objects @ [b]) @ bs" "length bs = length archs"
        "\<forall>k<length archs. \<exists>r''.
            parseHeader (fst (archs ! k)) (snd (archs ! k)) (newReader True (dev r)) =
              Inr (bs ! k, r'')"
      by auto
    have h: "parseHeader (fst a) (snd a) (newReader True (dev r)) = Inr (b, r')"
      using Inr p by (subst parseHeader_newReader [of _ _ r True, symmetric]) simp
    have "\<forall>k<length (a # archs). \<exists>r''.
            parseHeader (fst ((a # archs) ! k)) (snd ((a # archs) ! k))
              (newReader True (dev r)) = Inr ((b # bs) ! k, r'')"
    proof (intro allI impI)
      fix k assume k: "k < length (a # archs)"
      show "\<exists>r''. parseHeader (fst ((a # archs) ! k)) (snd ((a # archs) ! k))
              (newReader True (dev r)) = Inr ((b # bs) ! k, r'')"
      proof (cases k)
        case 0
        with h show ?thesis by auto
      next
        case (Suc j)
        with k bs(3) show ?thesis by auto
      qed
    qed
    with bs(1,2) show ?thesis
      by (intro exI [of _ "b # bs"]) simp
  qed
qed

text \<open>What a run appends to \<open>objects\<close> does not depend on what the list holds.\<close>

lemma parseArchs_objects:
  "parseArchs archs objects r =
     (case parseArchs archs [] r of
        Returned b new \<Rightarrow> Returned b (objects @ new)
      | Exited \<Rightarrow> Exited
      | Undefined \<Rightarrow> Undefined)"
proof (induction archs arbitrary: objects r)
  case Nil
  show ?case by simp
next
  case (Cons a archs)
  show ?case
  proof (cases "parseHeader (fst a) (snd a) r")
    case (Inl e)
    then show ?thesis
      by (cases e) (simp_all add: stopped_def)
  next
    case (Inr p)
    obtain b r' where p: "p = (b, r')" by (cases p)
    show ?thesis
      using Inr p Cons.IH [of "objects @ [b]" r'] Cons.IH [of "[b]" r']
      by (cases "parseArchs archs [] r'") simp_all
  qed
qed

section \<open>Read failures\<close>

lemma getUInt32_dev: "getUInt32 r = (v, r') \<Longrightarrow> dev r' = dev r"
  using getUInt_dev [of 4 r, where 'a = 32] by (simp add: getUInt32_def)

text \<open>
  Claim C2, as amended. When a checked fixed-width read fails while a slice of a
  universal binary is decoded (\<open>parseHeader\<close> returns false for the slice \<open>arch\<close>),
  \<open>parse\<close> returns false at once and the slices after it are not decoded. The objects of
  the slices decoded before it in the same call are not discarded: they stay in
  \<open>objects\<close>, after what the list held before the call.
\<close>

theorem parse_failure_keeps_earlier_objects:
  assumes "getUInt32 (newReader le0 f) = (Some magic, r)"
    and "magic = 0xCAFEBABE \<or> magic = 0xBEBAFECA"
    and "readFatHeader r = Inr (archs1 @ arch # archs2, r1)"
    and "parseArchs archs1 objects r1 = Returned True objects1"
    and "parseHeader (fst arch) (snd arch) (newReader True f) = Inl ReadFailed"
  shows "parse le0 (Some f) objects = Returned False objects1"
proof -
  from getUInt32_dev [OF assms(1)] have "dev r = f"
    by (simp add: newReader_def)
  with keepsDevD [OF keepsDev_readFatHeader assms(3)] have d: "dev r1 = f"
    by simp
  from assms(5) d
  have "parseHeader (fst arch) (snd arch) (newReader True (dev r1)) = Inl ReadFailed"
    by simp
  from parseArchs_prefix_fails [OF assms(4) this]
  have "parseArchs (archs1 @ arch # archs2) objects r1 = Returned False objects1" .
  with assms(1,2,3) show ?thesis
    by (simp add: parse_def)
qed

theorem parse_failure_keeps_earlier_objects_witness:
  "getUInt32 (newReader True fatTruncated) =
     (Some 0xBEBAFECA, \<lparr>dev = fatTruncated, pos = 4, littleEndian = True\<rparr>) \<and>
   readFatHeader \<lparr>dev = fatTruncated, pos = 4, littleEndian = True\<rparr> =
     Inr ([] @ (48, 28) # [(76, 28)] @ [],
          \<lparr>dev = fatTruncated, pos = 48, littleEndian = False\<rparr>) \<and>
   parseArchs [(48, 28)] [] \<lparr>dev = fatTruncated, pos = 48, littleEndian = False\<rparr> =
     Returned True
       [\<lparr>getSystemBits = 32, isLittleEndian = True, getCpuType = X86,
         getCpuSubType = I386, getFileType = Execute, getSections = [],
         getSymbolTable = [], getDynSymbolTable = []\<rparr>] \<and>
   parseHeader 76 28 (newReader True fatTruncated) = Inl ReadFailed \<and>
   parse True (Some fatTruncated) [] =
     Returned False
       [\<lparr>getSystemBits = 32, isLittleEndian = True, getCpuType = X86,
         getCpuSubType = I386, getFileType = Execute, getSections = [],
         getSymbolTable = [], getDynSymbolTable = []\<rparr>]"
proof -
  let ?b = "\<lparr>getSystemBits = 32, isLittleEndian = True, getCpuType = X86,
         getCpuSubType = I386, getFileType = Execute, getSections = [],
         getSymbolTable = [], getDynSymbolTable = []\<rparr>"
  let ?r = "\<lparr>dev = fatTruncated, pos = 4, littleEndian = True\<rparr>"
  let ?r1 = "\<lparr>dev = fatTruncated, pos = 48, littleEndian = False\<rparr>"
  have h1: "getUInt32 (newReader True fatTruncated) = (Some 0xBEBAFECA, ?r)"
    by code_simp
  have h2: "(0xBEBAFECA :: quint32) = 0xCAFEBABE \<or> (0xBEBAFECA :: quint32) = 0xBEBAFECA"
    by simp
  have h3': "readFatHeader ?r = Inr ([] @ (48, 28) # [(76, 28)] @ [], ?r1)"
    by code_simp
  then have h3: "readFatHeader ?r = Inr ([(48, 28)] @ (76, 28) # [], ?r1)"
    by simp
  have h4: "parseArchs [(48, 28)] [] ?r1 = Returned True [?b]"
    by code_simp
  have h5': "parseHeader 76 28 (newReader True fatTruncated) = Inl ReadFailed"
    by code_simp
  then have h5: "parseHeader (fst (76, 28)) (snd (76, 28)) (newReader True fatTruncated) =
      Inl ReadFailed"
    by simp
  note t = parse_failure_keeps_earlier_objects [OF h1 h2 h3 h4 h5]
  from h1 h3' h4 h5' t show ?thesis
    by blast
qed

text \<open>
  The claim as stated fails: the second slice of \<open>fatTruncated\<close> lies past the end of the
  file, so the read of its magic number fails; \<open>parse\<close> returns false, and the object of
  the first slice is in \<open>objects\<close>.
\<close>

theorem parse_not_all_or_nothing:
  "parse True (Some fatTruncated) [] =
     Returned False
       [\<lparr>getSystemBits = 32, isLittleEndian = True, getCpuType = X86,
         getCpuSubType = I386, getFileType = Execute, getSections = [],
         getSymbolTable = [], getDynSymbolTable = []\<rparr>]"
  by code_simp

text \<open>
  The other places where a checked read fails leave \<open>objects\<close> as it was before the
  call: the magic number of the file, the directory of a universal binary, and the one
  slice of a file that is no universal binary.
\<close>

lemma parse_magic_read_fails:
  assumes "length f < 4"
  shows "parse le0 (Some f) objects = Returned False objects"
proof -
  have "fst (getUInt32 (newReader le0 f)) = None"
    using assms getUInt_None_iff [of 4 "newReader le0 f", where 'a = 32]
    by (simp add: getUInt32_def newReader_def)
  then show ?thesis
    by (cases "getUInt32 (newReader le0 f)") (simp add: parse_def)
qed

lemma parse_directory_read_fails:
  assumes "getUInt32 (newReader le0 f) = (Some magic, r)"
    and "magic = 0xCAFEBABE \<or> magic = 0xBEBAFECA"
    and "readFatHeader r = Inl ReadFailed"
  shows "parse le0 (Some f) objects = Returned False objects"
  using assms by (simp add: parse_def stopped_def)

lemma parse_single_slice_fails:
  assumes "getUInt32 (newReader le0 f) = (Some magic, r)"
    and "magic \<noteq> 0xCAFEBABE" and "magic \<noteq> 0xBEBAFECA"
    and "parseHeader 0 0 r = Inl ReadFailed"
  shows "parse le0 (Some f) objects = Returned False objects"
  using assms by (simp add: parse_def stopped_def)

text \<open>
  A slice whose seven header words do not fit into the file fails: one of their reads
  is past the end of the file.
\<close>

lemma readHeader_truncated:
  assumes "length (dev r) < unat off + 28"
  shows "readHeader off r = Inl ReadFailed"
proof (rule ccontr)
  assume n: "readHeader off r \<noteq> Inl ReadFailed"
  have p: "getUInt32 q = (Some v, q') \<Longrightarrow>
      pos q + 4 \<le> length (dev q) \<and> pos q' = pos q + 4 \<and> dev q' = dev q" for q q' v
    by (drule getUInt32_at) simp
  from n show False
    using assms
    apply (simp add: readHeader_def andThen_modify andThen_checked
        split: prod.splits option.splits)
    apply (auto dest!: p simp: seek_def setLittleEndian_def)
    done
qed

lemma parseHeader_truncated:
  assumes "length (dev r) < unat off + 28"
  shows "parseHeader off sz r = Inl ReadFailed"
  by (simp add: parseHeader_def andThen_def readHeader_truncated [OF assms])

text \<open>
  The reads of reserved fields are not tested. \<open>slice64Short\<close> ends before the reserved
  field of its 64-bit header: that read fails, and the slice is decoded.
\<close>

lemma parse_reserved_field_untested:
  "parse True (Some slice64Short) [] =
     Returned True
       [\<lparr>getSystemBits = 64, isLittleEndian = True, getCpuType = X86_64,
         getCpuSubType = I386, getFileType = Execute, getSections = [],
         getSymbolTable = [], getDynSymbolTable = []\<rparr>]"
  by code_simp

section \<open>Runs of the decoder\<close>

text \<open>What a run appends to \<open>objects\<close> and returns, in terms of a run on an empty list.\<close>

lemma parse_appends:
  "parse le0 file objects =
     (case parse le0 file [] of
        Returned b new \<Rightarrow> Returned b (objects @ new)
      | Exited \<Rightarrow> Exited
      | Undefined \<Rightarrow> Undefined)"
proof (cases "file")
  case None
  then show ?thesis by (simp add: parse_def)
next
  case (Some f)
  obtain v r where g: "getUInt32 (newReader le0 f) = (v, r)"
    by (cases "getUInt32 (newReader le0 f)")
  show ?thesis
  proof (cases v)
    case None
    with Some g show ?thesis by (simp add: parse_def)
  next
    case (Some magic)
    note m = this
    show ?thesis
    proof (cases "magic = 0xCAFEBABE \<or> magic = 0xBEBAFECA")
      case True
      show ?thesis
      proof (cases "readFatHeader r")
        case (Inl e)
        with \<open>file = Some f\<close> g m True show ?thesis
          by (cases e) (auto simp: parse_def stopped_def)
      next
        case (Inr p)
        obtain archs r' where p: "p = (archs, r')" by (cases p)
        from parseArchs_objects [of archs objects r']
        show ?thesis
          using \<open>file = Some f\<close> g m True Inr p by (auto simp: parse_def)
      qed
    next
      case False
      show ?thesis
      proof (cases "parseHeader 0 0 r")
        case (Inl e)
        with \<open>file = Some f\<close> g m False show ?thesis
          by (cases e) (auto simp: parse_def stopped_def)
      next
        case (Inr p)
        obtain b r' where p: "p = (b, r')" by (cases p)
        with \<open>file = Some f\<close> g m False Inr show ?thesis
          by (auto simp: parse_def)
      qed
    qed
  qed
qed

text \<open>A second run on the same file appends the objects of the first run once more.\<close>

lemma parse_twice:
  assumes "parse le0 file [] = Returned b new"
  shows "parse le0 file new = Returned b (new @ new)"
  using assms by (subst parse_appends) simp

section \<open>Universal binaries\<close>

lemma readFatArchs_at:
  assumes "readFatArchs n archs r = Inr (archs', r')" and "pos r \<le> length (dev r)"
  shows "pos r + 20 * n \<le> length (dev r) \<and> r' = r\<lparr>pos := pos r + 20 * n\<rparr> \<and>
     archs' = archs @
       map (\<lambda>k. (wordLE (if littleEndian r then take 4 (drop (pos r + 20 * k + 8) (dev r))
                           else rev (take 4 (drop (pos r + 20 * k + 8) (dev r)))),
                  wordLE (if littleEndian r then take 4 (drop (pos r + 20 * k + 12) (dev r))
                           else rev (take 4 (drop (pos r + 20 * k + 12) (dev r))))))
         [0..<n]"
  using assms
proof (induction n arbitrary: archs r)
  case 0
  then show ?case by (simp add: ret_def)
next
  case (Suc n)
  from Suc.prems(1) obtain v1 r1 v2 r2 off r3 sz r4 v5 r5 where
    g1: "getUInt32 r = (Some v1, r1)" and g2: "getUInt32 r1 = (Some v2, r2)" and
    g3: "getUInt32 r2 = (Some off, r3)" and g4: "getUInt32 r3 = (Some sz, r4)" and
    g5: "getUInt32 r4 = (Some v5, r5)" and
    rec: "readFatArchs n (archs @ [(off, sz)]) r5 = Inr (archs', r')"
    by (auto simp: andThen_checked split: prod.splits option.splits)
  note a1 = getUInt32_at [OF g1]
  note a2 = getUInt32_at [OF g2]
  note a3 = getUInt32_at [OF g3]
  note a4 = getUInt32_at [OF g4]
  note a5 = getUInt32_at [OF g5]
  from a1 a2 a3 a4 a5 have r5: "r5 = r\<lparr>pos := pos r + 20\<rparr>"
    by simp
  from a1 a2 a3 have off: "off = wordLE (if littleEndian r then take 4 (drop (pos r + 8) (dev r))
                           else rev (take 4 (drop (pos r + 8) (dev r))))"
    by (simp add: add.commute)
  from a1 a2 a3 a4 have sz: "sz = wordLE (if littleEndian r then take 4 (drop (pos r + 12) (dev r))
                           else rev (take 4 (drop (pos r + 12) (dev r))))"
    by (simp add: add.commute)
  from a5 r5 have "pos r5 \<le> length (dev r5)"
    by simp
  from Suc.IH [OF rec this] r5 off sz show ?case
    by (simp add: map_upt_Suc add.assoc del: upt_Suc)
qed

text \<open>
  Claim C5. When the magic number of the file is one of the two of a universal binary
  and \<open>parse\<close> succeeds, then the architecture count \<open>n\<close> is the big-endian value of the
  bytes 4 to 7, the directory of \<open>n\<close> records of 20 bytes follows, and \<open>parse\<close> has
  appended \<open>n\<close> objects: the object at position \<open>k\<close> is what \<open>parseHeader\<close> decodes from
  the bytes of the file at the offset and size that record \<open>k\<close> holds as big-endian values
  in its third and fourth word. The first, second and fifth word of a record (CPU type,
  CPU subtype, alignment) are read and have no part in the result.
\<close>

theorem parse_universal:
  assumes "getUInt32 (newReader le0 f) = (Some magic, r)"
    and "magic = 0xCAFEBABE \<or> magic = 0xBEBAFECA"
    and "parse le0 (Some f) objects = Returned True objs"
  shows "8 \<le> length f \<and>
     (let n = unat (wordLE (rev (take 4 (drop 4 f))) :: quint32)
      in 8 + 20 * n \<le> length f \<and>
         (\<exists>bs. objs = objects @ bs \<and> length bs = n \<and>
            (\<forall>k<n. \<exists>r'.
               parseHeader (wordLE (rev (take 4 (drop (16 + 20 * k) f))))
                 (wordLE (rev (take 4 (drop (20 + 20 * k) f)))) (newReader True f) =
                 Inr (bs ! k, r'))))"
proof -
  note a = getUInt32_at [OF assms(1)]
  from a have r: "r = \<lparr>dev = f, pos = 4, littleEndian = le0\<rparr>"
    by (simp add: newReader_def)
  from assms obtain archs r1 where
    fh: "readFatHeader r = Inr (archs, r1)" and pa: "parseArchs archs objects r1 = Returned True objs"
    by (cases "readFatHeader r") (auto simp: parse_def stopped_def split: error.splits)
  let ?r0 = "setLittleEndian False r"
  from fh obtain nfat r2 where
    g: "getUInt32 ?r0 = (Some nfat, r2)" and
    fa: "readFatArchs (unat nfat) [] r2 = Inr (archs, r1)"
    by (auto simp: readFatHeader_def andThen_modify andThen_checked
          split: prod.splits option.splits)
  note b = getUInt32_at [OF g]
  from b r have len: "8 \<le> length f"
    and nfat: "nfat = wordLE (rev (take 4 (drop 4 f)))"
    and r2: "r2 = \<lparr>dev = f, pos = 8, littleEndian = False\<rparr>"
    by (simp_all add: setLittleEndian_def)
  from len r2 have "pos r2 \<le> length (dev r2)"
    by simp
  note c = readFatArchs_at [OF fa this]
  from c r2 have len2: "8 + 20 * unat nfat \<le> length f"
    and r1: "dev r1 = f"
    and archs: "archs =
       map (\<lambda>k. (wordLE (rev (take 4 (drop (16 + 20 * k) f))),
                  wordLE (rev (take 4 (drop (20 + 20 * k) f))))) [0..<unat nfat]"
    by (simp_all add: add.commute add.left_commute)
  from parseArchs_success [OF pa] r1 obtain bs where
    bs: "objs = objects @ bs" "length bs = length archs"
      "\<forall>k<length archs. \<exists>r'.
          parseHeader (fst (archs ! k)) (snd (archs ! k)) (newReader True f) = Inr (bs ! k, r')"
    by auto
  from archs have la: "length archs = unat nfat"
    by simp
  have "\<forall>k<unat nfat. \<exists>r'.
       parseHeader (wordLE (rev (take 4 (drop (16 + 20 * k) f))))
         (wordLE (rev (take 4 (drop (20 + 20 * k) f)))) (newReader True f) = Inr (bs ! k, r')"
  proof (intro allI impI)
    fix k assume k: "k < unat nfat"
    with archs have "archs ! k =
        (wordLE (rev (take 4 (drop (16 + 20 * k) f))), wordLE (rev (take 4 (drop (20 + 20 * k) f))))"
      by simp
    with bs(3) k la show "\<exists>r'.
       parseHeader (wordLE (rev (take 4 (drop (16 + 20 * k) f))))
         (wordLE (rev (take 4 (drop (20 + 20 * k) f)))) (newReader True f) = Inr (bs ! k, r')"
      by (metis fst_conv snd_conv)
  qed
  with len len2 bs(1,2) la nfat show ?thesis
    by (auto simp: Let_def)
qed


theorem parse_universal_witness:
  "getUInt32 (newReader True fatTwoSlices) =
     (Some 0xBEBAFECA, \<lparr>dev = fatTwoSlices, pos = 4, littleEndian = True\<rparr>) \<and>
   parse True (Some fatTwoSlices) [] =
     Returned True
       [\<lparr>getSystemBits = 32, isLittleEndian = True, getCpuType = X86,
         getCpuSubType = I386, getFileType = Execute, getSections = [],
         getSymbolTable = [], getDynSymbolTable = []\<rparr>,
        \<lparr>getSystemBits = 64, isLittleEndian = False, getCpuType = PowerPC_64,
         getCpuSubType = I386, getFileType = Execute, getSections = [],
         getSymbolTable = [], getDynSymbolTable = []\<rparr>] \<and>
   8 \<le> length fatTwoSlices \<and>
   (let n = unat (wordLE (rev (take 4 (drop 4 fatTwoSlices))) :: quint32)
    in 8 + 20 * n \<le> length fatTwoSlices \<and>
       (\<exists>bs. [\<lparr>getSystemBits = 32, isLittleEndian = True, getCpuType = X86,
                getCpuSubType = I386, getFileType = Execute, getSections = [],
                getSymbolTable = [], getDynSymbolTable = []\<rparr>,
               \<lparr>getSystemBits = 64, isLittleEndian = False, getCpuType = PowerPC_64,
                getCpuSubType = I386, getFileType = Execute, getSections = [],
                getSymbolTable = [], getDynSymbolTable = []\<rparr>] = [] @ bs \<and>
          length bs = n \<and>
          (\<forall>k<n. \<exists>r'.
             parseHeader (wordLE (rev (take 4 (drop (16 + 20 * k) fatTwoSlices))))
               (wordLE (rev (take 4 (drop (20 + 20 * k) fatTwoSlices))))
               (newReader True fatTwoSlices) = Inr (bs ! k, r'))))"
proof -
  have h1: "getUInt32 (newReader True fatTwoSlices) =
     (Some 0xBEBAFECA, \<lparr>dev = fatTwoSlices, pos = 4, littleEndian = True\<rparr>)"
    by code_simp
  have h2: "(0xBEBAFECA :: quint32) = 0xCAFEBABE \<or> (0xBEBAFECA :: quint32) = 0xBEBAFECA"
    by simp
  have h3: "parse True (Some fatTwoSlices) [] =
     Returned True
       [\<lparr>getSystemBits = 32, isLittleEndian = True, getCpuType = X86,
         getCpuSubType = I386, getFileType = Execute, getSections = [],
         getSymbolTable = [], getDynSymbolTable = []\<rparr>,
        \<lparr>getSystemBits = 64, isLittleEndian = False, getCpuType = PowerPC_64,
         getCpuSubType = I386, getFileType = Execute, getSections = [],
         getSymbolTable = [], getDynSymbolTable = []\<rparr>]"
    by code_simp
  from conjI [OF h1 conjI [OF h3 parse_universal [OF h1 h2 h3]]] show ?thesis .
qed

text \<open>
  The directory of \<open>fatTwoSlices\<close> and its two slices, each decoded on its own: the bit
  width, the byte order and the CPU type are those of the slice's header, not the CPU
  types 12 and 14 of the directory.
\<close>

lemma fatTwoSlices_directory:
  "(wordLE (rev (take 4 (drop 4 fatTwoSlices))) :: quint32) = 2 \<and>
   (wordLE (rev (take 4 (drop 8 fatTwoSlices))) :: quint32) = 12 \<and>
   (wordLE (rev (take 4 (drop 16 fatTwoSlices))) :: quint32) = 48 \<and>
   (wordLE (rev (take 4 (drop 20 fatTwoSlices))) :: quint32) = 28 \<and>
   (wordLE (rev (take 4 (drop 28 fatTwoSlices))) :: quint32) = 14 \<and>
   (wordLE (rev (take 4 (drop 36 fatTwoSlices))) :: quint32) = 76 \<and>
   (wordLE (rev (take 4 (drop 40 fatTwoSlices))) :: quint32) = 32"
  by code_simp

lemma fatTwoSlices_slices:
  "parseHeader 48 28 (newReader True fatTwoSlices) =
     Inr (\<lparr>getSystemBits = 32, isLittleEndian = True, getCpuType = X86,
            getCpuSubType = I386, getFileType = Execute, getSections = [],
            getSymbolTable = [], getDynSymbolTable = []\<rparr>,
          \<lparr>dev = fatTwoSlices, pos = 76, littleEndian = True\<rparr>) \<and>
   parseHeader 76 32 (newReader True fatTwoSlices) =
     Inr (\<lparr>getSystemBits = 64, isLittleEndian = False, getCpuType = PowerPC_64,
            getCpuSubType = I386, getFileType = Execute, getSections = [],
            getSymbolTable = [], getDynSymbolTable = []\<rparr>,
          \<lparr>dev = fatTwoSlices, pos = 108, littleEndian = False\<rparr>)"
  by code_simp

section \<open>File offsets of sections\<close>

lemma andThen_if:
  "andThen (if c then a else b) f = (if c then andThen a f else andThen b f)"
  by simp

lemma andThen_fail: "andThen (fail e) f = fail e"
  by (rule ext) (simp add: andThen_def fail_def)

lemma rebase_addSection:
  "rebase B (addSection (newSection t n a sz off) b) =
     addSection (newSection t n a sz (B + off)) (rebase B b)"
  by (simp add: rebase_def addSection_def newSection_def)

lemma storeSection_rebase:
  "storeSection B sn sg a sz fo (rebase B b) = rebase B (storeSection 0 sn sg a sz fo b)"
  by (simp add: storeSection_def rebase_addSection)

lemma readSection_rebase:
  "readSection B bits (rebase B b) = mapStep (rebase B) (readSection 0 bits b)"
  by (simp add: readSection_def mapStep_def andThen_assoc andThen_ret storeSection_rebase)

lemma readSections_rebase:
  "readSections B bits n (rebase B b) = mapStep (rebase B) (readSections 0 bits n b)"
proof (induction n arbitrary: b)
  case 0
  show ?case by (simp add: mapStep_def andThen_ret)
next
  case (Suc n)
  have "readSections B bits n (rebase B x) = mapStep (rebase B) (readSections 0 bits n x)" for x
    by (rule Suc)
  then show ?case
    by (simp add: readSection_rebase mapStep_def andThen_assoc andThen_ret)
qed

lemma binaryObject_rebaseLocals: "binaryObject (rebaseLocals B st) = rebase B (binaryObject st)"
  by (simp add: rebaseLocals_def)

lemma rebaseLocals_binaryObject:
  "rebaseLocals B (st\<lparr>binaryObject := b\<rparr>) = (rebaseLocals B st)\<lparr>binaryObject := rebase B b\<rparr>"
  by (cases st) (simp add: rebaseLocals_def)

lemma rebaseLocals_symtab:
  "rebaseLocals B (st\<lparr>binaryObject := b, symoff := x, symnum := y\<rparr>) =
     (rebaseLocals B st)\<lparr>binaryObject := rebase B b, symoff := x, symnum := y\<rparr>"
  by (cases st) (simp add: rebaseLocals_def)

lemma rebaseLocals_dysymtab:
  "rebaseLocals B (st\<lparr>indirsymoff := x, indirsymnum := y\<rparr>) =
     (rebaseLocals B st)\<lparr>indirsymoff := x, indirsymnum := y\<rparr>"
  by (cases st) (simp add: rebaseLocals_def)

lemma lcSegment_rebase:
  "lcSegment B bits (rebaseLocals B st) = mapStep (rebaseLocals B) (lcSegment 0 bits st)"
  by (simp add: lcSegment_def binaryObject_rebaseLocals readSections_rebase mapStep_def
        andThen_assoc andThen_ret rebaseLocals_binaryObject)

lemma lcSymtab_rebase:
  "lcSymtab B (rebaseLocals B st) = mapStep (rebaseLocals B) (lcSymtab 0 st)"
  by (simp add: lcSymtab_def mapStep_def andThen_assoc andThen_ret rebaseLocals_symtab
        binaryObject_rebaseLocals rebase_addSection)

lemma lcDysymtab_rebase:
  "lcDysymtab (rebaseLocals B st) = mapStep (rebaseLocals B) (lcDysymtab st)"
  by (simp add: lcDysymtab_def mapStep_def andThen_assoc andThen_ret rebaseLocals_dysymtab)

lemma lcLinkedit_rebase:
  "lcLinkedit B ty (rebaseLocals B st) = mapStep (rebaseLocals B) (lcLinkedit 0 ty st)"
  by (simp add: lcLinkedit_def mapStep_def andThen_assoc andThen_ret
        if_distrib [of "rebaseLocals B"] rebaseLocals_binaryObject
        binaryObject_rebaseLocals rebase_addSection cong: if_cong)

lemma loadCommand_rebase:
  "loadCommand B bits (rebaseLocals B st) = mapStep (rebaseLocals B) (loadCommand 0 bits st)"
proof -
  have m: "mapStep g (andThen m f) = andThen m (\<lambda>x. mapStep g (f x))" for g :: "Locals \<Rightarrow> Locals"
    and m :: "'c step" and f
    by (simp add: mapStep_def andThen_assoc)
  have i: "mapStep g (if c then a else b) = (if c then mapStep g a else mapStep g b)"
    for g :: "Locals \<Rightarrow> Locals" and c a b
    by simp
  have r: "mapStep g (ret x) = ret (g x)" for g :: "Locals \<Rightarrow> Locals" and x
    by (simp add: mapStep_def andThen_ret)
  have f: "mapStep g (fail e) = fail e" for g :: "Locals \<Rightarrow> Locals" and e
    by (simp add: mapStep_def andThen_fail)
  show ?thesis
    unfolding loadCommand_def m i r f
    by (simp only: lcSegment_rebase lcSymtab_rebase lcDysymtab_rebase lcLinkedit_rebase)
qed

lemma loadCommands_rebase:
  "loadCommands B bits n (rebaseLocals B st) =
     mapStep (rebaseLocals B) (loadCommands 0 bits n st)"
proof (induction n arbitrary: st)
  case 0
  show ?case by (simp add: mapStep_def andThen_ret)
next
  case (Suc n)
  have "loadCommands B bits n (rebaseLocals B x) =
      mapStep (rebaseLocals B) (loadCommands 0 bits n x)" for x
    by (rule Suc)
  then show ?case
    by (simp add: loadCommand_rebase mapStep_def andThen_assoc andThen_ret)
qed

lemma readSymbolTable_rebase:
  "readSymbolTable B bits (rebaseLocals B st) =
     mapStep (map_prod id (rebase B)) (readSymbolTable 0 bits st)"
  by (simp add: readSymbolTable_def mapStep_def andThen_assoc andThen_ret
        binaryObject_rebaseLocals rebase_addSection split_def)
     (simp add: rebaseLocals_def)

lemma readDynSymbolTable_rebase:
  "readDynSymbolTable B st (rebase B b) =
     mapStep (map_prod id (rebase B)) (readDynSymbolTable 0 st b)"
  by (simp add: readDynSymbolTable_def mapStep_def andThen_assoc andThen_ret
        rebase_addSection split_def)


lemma rebase_zero: "rebase 0 b = b"
  by (simp add: rebase_def)

lemma rebaseLocals_zero: "rebaseLocals 0 st = st"
  by (simp add: rebaseLocals_def rebase_zero)

lemma rebase_no_sections: "getSections b = [] \<Longrightarrow> rebase B b = b"
  by (simp add: rebase_def)

section \<open>Where the symbol tables are read\<close>

lemma getUInt_at:
  assumes "getUInt n r = (Some v, r')" and "0 < n"
  shows "pos r + n \<le> length (dev r) \<and> v = wordAt r n (pos r) \<and> r' = r\<lparr>pos := pos r + n\<rparr>"
proof -
  have le: "pos r + n \<le> length (dev r)"
  proof (rule ccontr)
    assume "\<not> pos r + n \<le> length (dev r)"
    then have "fst (getUInt n r) = (None :: 'a word option)"
      using getUInt_None_iff [OF assms(2), of r, where 'a = 'a] by simp
    with assms(1) show False by simp
  qed
  from getUInt_Some [OF le, where 'a = 'a] assms(1) le show ?thesis
    by (simp add: wordAt_def)
qed

lemma checked_getUInt32_at:
  assumes "checked getUInt32 r = Inr (v, r')"
  shows "pos r + 4 \<le> length (dev r) \<and> v = wordAt r 4 (pos r) \<and> r' = r\<lparr>pos := pos r + 4\<rparr>"
proof -
  from assms have "getUInt 4 r = (Some v, r')"
    by (cases "getUInt32 r") (auto simp: checked_def getUInt32_def split: option.splits)
  then show ?thesis by (rule getUInt_at) simp
qed

lemma checked_getUInt64_at:
  assumes "checked getUInt64 r = Inr (v, r')"
  shows "pos r + 8 \<le> length (dev r) \<and> v = wordAt r 8 (pos r) \<and> r' = r\<lparr>pos := pos r + 8\<rparr>"
proof -
  from assms have "getUInt 8 r = (Some v, r')"
    by (cases "getUInt64 r") (auto simp: checked_def getUInt64_def split: option.splits)
  then show ?thesis by (rule getUInt_at) simp
qed

lemma checked_getUInt16_at:
  assumes "checked getUInt16 r = Inr (v, r')"
  shows "pos r + 2 \<le> length (dev r) \<and> r' = r\<lparr>pos := pos r + 2\<rparr>"
proof -
  from assms have "getUInt 2 r = (Some v, r')"
    by (cases "getUInt16 r") (auto simp: checked_def getUInt16_def split: option.splits)
  from getUInt_at [OF this] show ?thesis by simp
qed

lemma checked_getUChar_at:
  assumes "checked getUChar r = Inr (v, r')"
  shows "pos r + 1 \<le> length (dev r) \<and> r' = r\<lparr>pos := pos r + 1\<rparr>"
proof -
  from assms have "getUInt 1 r = (Some v, r')"
    by (cases "getUChar r") (auto simp: checked_def getUChar_def split: option.splits)
  from getUInt_at [OF this] show ?thesis by simp
qed

lemma getAddr_at:
  assumes "getAddr bits r = Inr (v, r')"
  shows "v = (if bits = 32 then ucast (wordAt r 4 (pos r) :: quint32) else wordAt r 8 (pos r)) \<and>
         r' = r\<lparr>pos := pos r + (if bits = 32 then 4 else 8)\<rparr>"
proof (cases "bits = 32")
  case True
  with assms obtain w where "checked getUInt32 r = Inr (w, r')" and "v = ucast w"
    by (auto simp: getAddr_def ret_def elim!: andThen_Inr)
  with checked_getUInt32_at [of r w r'] True show ?thesis by simp
next
  case False
  with assms have "checked getUInt64 r = Inr (v, r')"
    by (simp add: getAddr_def)
  with checked_getUInt64_at [of r v r'] False show ?thesis by simp
qed

lemma wordAt_pos: "wordAt (r\<lparr>pos := p\<rparr>) n q = wordAt r n q"
  by (simp add: wordAt_def)

lemma symbolAt_pos: "symbolAt bits (r\<lparr>pos := p\<rparr>) q = symbolAt bits r q"
  by (simp add: symbolAt_def wordAt_pos)

lemma readSymbol_at:
  assumes "readSymbol bits acc r = Inr (acc', r')"
  shows "acc' = (fst acc @ [symbolAt bits r (pos r)], snd acc + of_nat (entrySize bits)) \<and>
         r' = r\<lparr>pos := pos r + entrySize bits\<rparr>"
proof -
  from assms obtain p0 r0 ix r1 c1 r2 c2 r3 d r4 v r5 p1 r6 where
    s0: "getPos r = Inr (p0, r0)" and
    s1: "checked getUInt32 r0 = Inr (ix, r1)" and
    s2: "checked getUChar r1 = Inr (c1, r2)" and
    s3: "checked getUChar r2 = Inr (c2, r3)" and
    s4: "checked getUInt16 r3 = Inr (d, r4)" and
    s5: "getAddr bits r4 = Inr (v, r5)" and
    s6: "getPos r5 = Inr (p1, r6)" and
    s7: "ret (fst acc @ [newSymbolEntry ix v], snd acc + of_nat (p1 - p0)) r6 = Inr (acc', r')"
    unfolding readSymbol_def by (elim andThen_Inr) blast
  from s0 have r0: "r0 = r" "p0 = pos r"
    by (auto simp: getPos_def untested_def)
  note a1 = checked_getUInt32_at [OF s1]
  note a2 = checked_getUChar_at [OF s2]
  note a3 = checked_getUChar_at [OF s3]
  note a4 = checked_getUInt16_at [OF s4]
  note a5 = getAddr_at [OF s5]
  from a1 a2 a3 a4 r0 have r4: "r4 = r\<lparr>pos := pos r + 8\<rparr>"
    by simp
  with a5 have r5: "r5 = r\<lparr>pos := pos r + entrySize bits\<rparr>"
    and v: "v = (if bits = 32 then ucast (wordAt r 4 (pos r + 8) :: quint32)
                 else wordAt r 8 (pos r + 8))"
    by (simp_all add: entrySize_def wordAt_pos)
  from s6 r5 have r6: "r6 = r5" "p1 = pos r + entrySize bits"
    by (auto simp: getPos_def untested_def)
  from a1 r0 have ix: "ix = wordAt r 4 (pos r)"
    by simp
  from s7 r6 r5 r0 ix v show ?thesis
    by (simp add: ret_def symbolAt_def)
qed

lemma readSymbols_at:
  assumes "readSymbols bits n acc r = Inr (acc', r')"
  shows "acc' = (fst acc @ map (\<lambda>k. symbolAt bits r (pos r + entrySize bits * k)) [0..<n],
                 snd acc + of_nat (entrySize bits * n)) \<and>
         r' = r\<lparr>pos := pos r + entrySize bits * n\<rparr>"
  using assms
proof (induction n arbitrary: acc r)
  case 0
  then show ?case by (simp add: ret_def)
next
  case (Suc n)
  from Suc.prems obtain acc1 r1 where
    s: "readSymbol bits acc r = Inr (acc1, r1)" and
    rec: "readSymbols bits n acc1 r1 = Inr (acc', r')"
    by (auto elim: andThen_Inr)
  note a = readSymbol_at [OF s]
  note b = Suc.IH [OF rec]
  from a b show ?case
    by (simp add: map_upt_Suc symbolAt_pos add.assoc algebra_simps del: upt_Suc)
qed


lemma readDynSymbol_at:
  assumes "readDynSymbol acc r = Inr (acc', r')"
  shows "acc' = (fst acc @ [newSymbolEntry (wordAt r 4 (pos r)) 0], snd acc + 4) \<and>
         r' = r\<lparr>pos := pos r + 4\<rparr>"
proof -
  from assms obtain p0 r0 num r1 p1 r2 where
    s0: "getPos r = Inr (p0, r0)" and
    s1: "checked getUInt32 r0 = Inr (num, r1)" and
    s2: "getPos r1 = Inr (p1, r2)" and
    s3: "ret (fst acc @ [newSymbolEntry num 0], snd acc + of_nat (p1 - p0)) r2 = Inr (acc', r')"
    unfolding readDynSymbol_def by (elim andThen_Inr) blast
  from s0 have r0: "r0 = r" "p0 = pos r"
    by (auto simp: getPos_def untested_def)
  note a1 = checked_getUInt32_at [OF s1]
  from s2 a1 r0 have r2: "r2 = r\<lparr>pos := pos r + 4\<rparr>" "p1 = pos r + 4"
    by (auto simp: getPos_def untested_def)
  from s3 r2 r0 a1 show ?thesis
    by (simp add: ret_def)
qed

lemma readDynSymbols_at:
  assumes "readDynSymbols n acc r = Inr (acc', r')"
  shows "acc' = (fst acc @ map (\<lambda>k. newSymbolEntry (wordAt r 4 (pos r + 4 * k)) 0) [0..<n],
                 snd acc + of_nat (4 * n)) \<and>
         r' = r\<lparr>pos := pos r + 4 * n\<rparr>"
  using assms
proof (induction n arbitrary: acc r)
  case 0
  then show ?case by (simp add: ret_def)
next
  case (Suc n)
  from Suc.prems obtain acc1 r1 where
    s: "readDynSymbol acc r = Inr (acc1, r1)" and
    rec: "readDynSymbols n acc1 r1 = Inr (acc', r')"
    by (auto elim: andThen_Inr)
  note a = readDynSymbol_at [OF s]
  note b = Suc.IH [OF rec]
  from a b show ?case
    by (simp add: map_upt_Suc wordAt_pos add.assoc algebra_simps del: upt_Suc)
qed

lemma readSymbolTable_at:
  assumes "0 < symnum st" and "readSymbolTable B bits st r = Inr ((symTable, b1), r1)"
  shows "symTable =
       map (\<lambda>k. symbolAt bits r (unat (symoff st) + entrySize bits * k))
         [0..<unat (symnum st)] \<and>
     b1 = addSection
            (newSection Symbols ''Symbol Table'' (ucast (symoff st))
               (ucast (of_nat (entrySize bits * unat (symnum st)) :: quint32))
               (B + symoff st))
            (binaryObject st) \<and>
     r1 = r\<lparr>pos := unat (symoff st) + entrySize bits * unat (symnum st)\<rparr>"
proof -
  from assms obtain acc' r' where
    rs: "readSymbols bits (unat (symnum st)) ([], 0) (seek (unat (symoff st)) r) = Inr (acc', r')"
    and rt: "(case acc' of (symTable, symsize) \<Rightarrow>
               ret (symTable,
                    addSection (newSection Symbols ''Symbol Table'' (ucast (symoff st))
                                  (ucast symsize) (B + symoff st)) (binaryObject st))) r' =
             Inr ((symTable, b1), r1)"
    by (auto simp: readSymbolTable_def andThen_modify elim!: andThen_Inr)
  note a = readSymbols_at [OF rs]
  from a rt show ?thesis
    by (simp add: seek_def ret_def symbolAt_pos)
qed

lemma readDynSymbolTable_at:
  assumes "0 < indirsymnum st" and "readDynSymbolTable B st b r = Inr ((dynsymTable, b2), r2)"
  shows "dynsymTable =
       map (\<lambda>k. newSymbolEntry (wordAt r 4 (unat (indirsymoff st) + 4 * k)) 0)
         [0..<unat (indirsymnum st)] \<and>
     b2 = addSection
            (newSection DynSymbols ''Dynamic Symbol Table'' (ucast (indirsymoff st))
               (ucast (of_nat (4 * unat (indirsymnum st)) :: quint32))
               (B + indirsymoff st))
            b \<and>
     r2 = r\<lparr>pos := unat (indirsymoff st) + 4 * unat (indirsymnum st)\<rparr>"
proof -
  from assms obtain acc' r' where
    rs: "readDynSymbols (unat (indirsymnum st)) ([], 0) (seek (unat (indirsymoff st)) r) =
           Inr (acc', r')"
    and rt: "(case acc' of (dynsymTable, dynsymsize) \<Rightarrow>
               ret (dynsymTable,
                    addSection (newSection DynSymbols ''Dynamic Symbol Table''
                                  (ucast (indirsymoff st)) (ucast dynsymsize)
                                  (B + indirsymoff st)) b)) r' =
             Inr ((dynsymTable, b2), r2)"
    by (auto simp: readDynSymbolTable_def andThen_modify elim!: andThen_Inr)
  note a = readDynSymbols_at [OF rs]
  from a rt show ?thesis
    by (simp add: seek_def ret_def wordAt_pos)
qed


text \<open>
  The slice of \<open>fatStubs\<close> lies at the base offset 28. After its load commands the local
  variables are \<open>fatStubsLocals\<close>: the symbol table is at 256 and the indirect symbol
  table at 280, counted from the start of the slice.
\<close>

lemma fatStubs_loadCommands:
  "readHeader 28 (newReader True fatStubs) =
     Inr ((\<lparr>binaryObject =
              \<lparr>getSystemBits = 32, isLittleEndian = True, getCpuType = X86,
               getCpuSubType = I386, getFileType = Execute, getSections = [],
               getSymbolTable = [], getDynSymbolTable = []\<rparr>,
            symoff = 0, symnum = 0, indirsymoff = 0, indirsymnum = 0\<rparr>, 3),
          \<lparr>dev = fatStubs, pos = 56, littleEndian = True\<rparr>) \<and>
   loadCommands 28 32 3
     \<lparr>binaryObject =
        \<lparr>getSystemBits = 32, isLittleEndian = True, getCpuType = X86,
         getCpuSubType = I386, getFileType = Execute, getSections = [],
         getSymbolTable = [], getDynSymbolTable = []\<rparr>,
      symoff = 0, symnum = 0, indirsymoff = 0, indirsymnum = 0\<rparr>
     \<lparr>dev = fatStubs, pos = 56, littleEndian = True\<rparr> =
     Inr (fatStubsLocals, \<lparr>dev = fatStubs, pos = 284, littleEndian = True\<rparr>)"
  by code_simp


section \<open>The symbol tables of the object\<close>

lemma sameTables_refl: "sameTables b b"
  by (simp add: sameTables_def)

lemma sameTables_trans: "sameTables a b \<Longrightarrow> sameTables b c \<Longrightarrow> sameTables a c"
  by (simp add: sameTables_def)

lemma sameTables_addSection: "sameTables b (addSection sec b)"
  by (simp add: sameTables_def addSection_def)

lemma sameTables_storeSection: "sameTables b (storeSection off sn sg a sz fo b)"
  by (simp add: storeSection_def sameTables_addSection sameTables_refl)

lemma readSections_sameTables: "ensures (readSections off bits n b) (sameTables b)"
proof (induction n arbitrary: b)
  case 0
  show ?case by (simp add: ensures_ret sameTables_refl)
next
  case (Suc n)
  have s: "ensures (readSection off bits b) (sameTables b)"
    unfolding readSection_def
    by (intro ensures_andThen ensures_ret sameTables_storeSection)
  show ?case
    unfolding readSections.simps
  proof (rule ensures_andThen2 [OF s])
    fix x assume "sameTables b x"
    with Suc [of x] show "ensures (readSections off bits n x) (sameTables b)"
      by (auto simp: ensures_def intro: sameTables_trans)
  qed
qed

lemma loadCommand_sameTables:
  "ensures (loadCommand off bits st) (\<lambda>st'. sameTables (binaryObject st) (binaryObject st'))"
proof -
  have seg: "ensures (lcSegment off bits st) (\<lambda>st'. sameTables (binaryObject st) (binaryObject st'))"
    unfolding lcSegment_def
    apply (intro ensures_andThen2 [OF readSections_sameTables] ensures_andThen)
    apply (rule ensures_ret)
    apply simp
    done
  have sym: "ensures (lcSymtab off st) (\<lambda>st'. sameTables (binaryObject st) (binaryObject st'))"
    unfolding lcSymtab_def
    by (intro ensures_andThen ensures_ret) (simp add: sameTables_addSection)
  have dys: "ensures (lcDysymtab st) (\<lambda>st'. sameTables (binaryObject st) (binaryObject st'))"
    unfolding lcDysymtab_def
    by (intro ensures_andThen ensures_ret) (simp add: sameTables_refl)
  have lnk: "ensures (lcLinkedit off ty st) (\<lambda>st'. sameTables (binaryObject st) (binaryObject st'))" for ty
    unfolding lcLinkedit_def
    by (intro ensures_andThen ensures_ret) (simp add: sameTables_addSection sameTables_refl)
  show ?thesis
    unfolding loadCommand_def
    by (intro ensures_andThen ensures_if ensures_fail seg sym dys lnk ensures_ret sameTables_refl)
qed

lemma loadCommands_sameTables:
  "ensures (loadCommands off bits n st) (\<lambda>st'. sameTables (binaryObject st) (binaryObject st'))"
proof (induction n arbitrary: st)
  case 0
  show ?case by (simp add: ensures_ret sameTables_refl)
next
  case (Suc n)
  show ?case
    unfolding loadCommands.simps
  proof (rule ensures_andThen2 [OF loadCommand_sameTables])
    fix x :: Locals assume "sameTables (binaryObject st) (binaryObject x)"
    with Suc [of x] show "ensures (loadCommands off bits n x) (\<lambda>st'. sameTables (binaryObject st) (binaryObject st'))"
      by (auto simp: ensures_def intro: sameTables_trans)
  qed
qed

lemma readHeader_tables:
  "ensures (readHeader off)
     (\<lambda>p. getSymbolTable (binaryObject (fst p)) = [] \<and>
          getDynSymbolTable (binaryObject (fst p)) = [])"
  unfolding readHeader_def
  by (intro ensures_andThen ensures_ret) simp

lemma readSymbolTable_cases:
  assumes "readSymbolTable off bits st r = Inr ((symTable, b1), r1)"
  shows "length symTable = unat (symnum st) \<and>
         (\<forall>e \<in> set symTable. getString e = []) \<and>
         sameTables (binaryObject st) b1 \<and> sameHeader (binaryObject st) b1"
proof (cases "0 < symnum st")
  case True
  from readSymbolTable_at [OF True assms] show ?thesis
    by (auto simp: sameTables_addSection sameHeader_addSection symbolAt_def newSymbolEntry_def)
next
  case False
  then have "symnum st = 0"
    by (simp add: word_gt_0)
  with assms show ?thesis
    by (simp add: readSymbolTable_def ret_def sameTables_refl sameHeader_refl)
qed

lemma readDynSymbolTable_cases:
  assumes "readDynSymbolTable off st b r = Inr ((dynsymTable, b2), r2)"
  shows "length dynsymTable = unat (indirsymnum st) \<and>
         (\<forall>e \<in> set dynsymTable. getString e = [] \<and> getValue e = 0) \<and>
         sameTables b b2"
proof (cases "0 < indirsymnum st")
  case True
  from readDynSymbolTable_at [OF True assms] show ?thesis
    by (auto simp: sameTables_addSection newSymbolEntry_def)
next
  case False
  then have "indirsymnum st = 0"
    by (simp add: word_gt_0)
  with assms show ?thesis
    by (simp add: readDynSymbolTable_def ret_def sameTables_refl)
qed

text \<open>The steps of \<open>finishHeader\<close>, one after the other.\<close>

lemma finishHeader_steps:
  assumes "finishHeader off bits st r = Inr (b, r')"
  obtains symTable b1 r1 dynsymTable b2 r2 secs symTable' where
    "readSymbolTable off bits st r = Inr ((symTable, b1), r1)"
    "readDynSymbolTable off st b1 r1 = Inr ((dynsymTable, b2), r2)"
    "fillSections (getSections b2) r2 = Inr (secs, r')"
    "stringPass (symnum st) (b2\<lparr>getSections := secs\<rparr>) symTable = Inr symTable'"
    "b = dynPass (symnum st) (indirsymnum st) symTable' dynsymTable
           (if symnum st > 0 then b2\<lparr>getSections := secs, getSymbolTable := symTable'\<rparr>
            else b2\<lparr>getSections := secs\<rparr>)"
proof -
  from assms obtain p1 r1 where
    s1: "readSymbolTable off bits st r = Inr (p1, r1)" and
    k1: "(case p1 of (symTable, b1) \<Rightarrow>
           andThen (readDynSymbolTable off st b1) (\<lambda>(dynsymTable, b2).
           andThen (fillSections (getSections b2)) (\<lambda>secs.
           andThen (liftE (stringPass (symnum st) (b2\<lparr>getSections := secs\<rparr>) symTable))
             (\<lambda>symTable'.
           ret (dynPass (symnum st) (indirsymnum st) symTable' dynsymTable
                  (if symnum st > 0 then b2\<lparr>getSections := secs, getSymbolTable := symTable'\<rparr>
                   else b2\<lparr>getSections := secs\<rparr>)))))) r1 = Inr (b, r')"
    unfolding finishHeader_def by (rule andThen_Inr)
  obtain symTable b1 where p1: "p1 = (symTable, b1)" by (cases p1)
  from k1 [unfolded p1 prod.case] obtain p2 r2 where
    s2: "readDynSymbolTable off st b1 r1 = Inr (p2, r2)" and
    k2: "(case p2 of (dynsymTable, b2) \<Rightarrow>
           andThen (fillSections (getSections b2)) (\<lambda>secs.
           andThen (liftE (stringPass (symnum st) (b2\<lparr>getSections := secs\<rparr>) symTable))
             (\<lambda>symTable'.
           ret (dynPass (symnum st) (indirsymnum st) symTable' dynsymTable
                  (if symnum st > 0 then b2\<lparr>getSections := secs, getSymbolTable := symTable'\<rparr>
                   else b2\<lparr>getSections := secs\<rparr>))))) r2 = Inr (b, r')"
    by (rule andThen_Inr)
  obtain dynsymTable b2 where p2: "p2 = (dynsymTable, b2)" by (cases p2)
  from k2 [unfolded p2 prod.case] obtain secs r3 where
    s3: "fillSections (getSections b2) r2 = Inr (secs, r3)" and
    k3: "andThen (liftE (stringPass (symnum st) (b2\<lparr>getSections := secs\<rparr>) symTable))
             (\<lambda>symTable'.
           ret (dynPass (symnum st) (indirsymnum st) symTable' dynsymTable
                  (if symnum st > 0 then b2\<lparr>getSections := secs, getSymbolTable := symTable'\<rparr>
                   else b2\<lparr>getSections := secs\<rparr>))) r3 = Inr (b, r')"
    by (rule andThen_Inr)
  from k3 obtain symTable' r4 where
    s4: "liftE (stringPass (symnum st) (b2\<lparr>getSections := secs\<rparr>) symTable) r3 = Inr (symTable', r4)"
    and k4: "ret (dynPass (symnum st) (indirsymnum st) symTable' dynsymTable
                  (if symnum st > 0 then b2\<lparr>getSections := secs, getSymbolTable := symTable'\<rparr>
                   else b2\<lparr>getSections := secs\<rparr>)) r4 = Inr (b, r')"
    by (rule andThen_Inr)
  from s4 have s4': "stringPass (symnum st) (b2\<lparr>getSections := secs\<rparr>) symTable = Inr symTable'"
    and r4: "r4 = r3"
    by (auto simp: liftE_def split: sum.splits)
  from k4 r4 have b: "b = dynPass (symnum st) (indirsymnum st) symTable' dynsymTable
           (if symnum st > 0 then b2\<lparr>getSections := secs, getSymbolTable := symTable'\<rparr>
            else b2\<lparr>getSections := secs\<rparr>)" and "r' = r3"
    by (auto simp: ret_def)
  with s1 [unfolded p1] s2 [unfolded p2] s3 s4' that show thesis
    by blast
qed


section \<open>Names of symbols\<close>

lemma QString_scanString: "QString (scanString xs) = takeWhile (\<lambda>c. c \<noteq> CHR 0x00) xs"
  by (induction xs) (simp_all add: QString_def)

lemma symbolString_Inr:
  assumes "symbolString data index = Inr s"
  shows "0 \<le> sint index \<and>
         s = takeWhile (\<lambda>c. c \<noteq> CHR 0x00) (drop (nat (sint index)) data)"
  using assms by (auto simp: symbolString_def QString_scanString split: if_splits)

lemma mergeStrings_Inr:
  assumes "mergeStrings data symbols = Inr symbols'"
  shows "symbols' =
       map (\<lambda>e. e\<lparr>getString :=
                    takeWhile (\<lambda>c. c \<noteq> CHR 0x00) (drop (nat (sint (getIndex e))) data)\<rparr>)
         symbols \<and>
     (\<forall>e \<in> set symbols. 0 \<le> sint (getIndex e))"
  using assms
proof (induction symbols arbitrary: symbols')
  case Nil
  then show ?case by simp
next
  case (Cons e symbols)
  from Cons.prems obtain s rest where
    s: "symbolString data (getIndex e) = Inr s" and
    rest: "mergeStrings data symbols = Inr rest" and
    r: "symbols' = e\<lparr>getString := s\<rparr> # rest"
    by (auto split: sum.splits)
  from symbolString_Inr [OF s] Cons.IH [OF rest] r show ?case
    by simp
qed

lemma sint_nonneg_uint:
  fixes w :: quint32
  assumes "0 \<le> sint w"
  shows "sint w = uint w"
proof (cases "uint w < 2 ^ 31")
  case True
  have "- (2 ^ 31) \<le> (0 :: int)"
    by simp
  also have "0 \<le> uint w"
    by simp
  finally have "- (2 ^ 31) \<le> uint w" .
  with True have "signed_take_bit 31 (uint w) = uint w"
    by (intro signed_take_bit_int_eq_self)
  then show ?thesis
    by (simp add: sint_uint)
next
  case False
  then have "2 ^ 31 \<le> uint w" by simp
  then have "signed_take_bit 31 (uint w) \<le> uint w - 2 ^ Suc 31"
    by (rule signed_take_bit_int_less_eq)
  then have "signed_take_bit 31 (uint w) \<le> uint w - 4294967296"
    by simp
  moreover have "uint w < 4294967296"
    using uint_bounded [of w] by simp
  moreover have "sint w = signed_take_bit 31 (uint w)"
    by (simp add: sint_uint)
  ultimately have "sint w < 0"
    by linarith
  with assms show ?thesis by simp
qed

lemma sint_index_nat:
  fixes w :: quint32
  assumes "0 \<le> sint w"
  shows "nat (sint w) = unat w"
  unfolding sint_nonneg_uint [OF assms] by simp




text \<open>
  A decoded object: the local variables after the load commands and the steps of
  \<open>finishHeader\<close> that led to it.
\<close>

lemma parseHeader_steps:
  assumes "parseHeader offset size' r = Inr (b, r')"
  obtains st :: Locals and symTable dynsymTable b2 r2 secs symTable' where
    "length symTable = unat (symnum st)"
    "\<forall>e \<in> set symTable. getString e = []"
    "length dynsymTable = unat (indirsymnum st)"
    "\<forall>e \<in> set dynsymTable. getString e = [] \<and> getValue e = 0"
    "getSymbolTable b2 = []" "getDynSymbolTable b2 = []"
    "fillSections (getSections b2) r2 = Inr (secs, r')"
    "stringPass (symnum st) (b2\<lparr>getSections := secs\<rparr>) symTable = Inr symTable'"
    "b = dynPass (symnum st) (indirsymnum st) symTable' dynsymTable
           (if symnum st > 0 then b2\<lparr>getSections := secs, getSymbolTable := symTable'\<rparr>
            else b2\<lparr>getSections := secs\<rparr>)"
proof -
  from assms obtain p q where
    h: "readHeader offset r = Inr (p, q)" and
    rest: "(case p of (st, ncmds) \<Rightarrow>
             andThen (loadCommands offset (getSystemBits (binaryObject st)) (unat ncmds) st)
               (finishHeader offset (getSystemBits (binaryObject st)))) q = Inr (b, r')"
    unfolding parseHeader_def by (rule andThen_Inr)
  obtain st0 ncmds where p: "p = (st0, ncmds)" by (cases p)
  from rest [unfolded p prod.case] obtain st q' where
    l: "loadCommands offset (getSystemBits (binaryObject st0)) (unat ncmds) st0 q = Inr (st, q')"
    and f: "finishHeader offset (getSystemBits (binaryObject st0)) st q' = Inr (b, r')"
    by (rule andThen_Inr)
  from ensuresD [OF readHeader_tables h] p
  have t0: "getSymbolTable (binaryObject st0) = []" "getDynSymbolTable (binaryObject st0) = []"
    by simp_all
  from ensuresD [OF loadCommands_sameTables l] t0
  have t: "getSymbolTable (binaryObject st) = []" "getDynSymbolTable (binaryObject st) = []"
    by (simp_all add: sameTables_def)
  from f obtain symTable b1 r1 dynsymTable b2 r2 secs symTable' where
    s: "readSymbolTable offset (getSystemBits (binaryObject st0)) st q' = Inr ((symTable, b1), r1)"
      "readDynSymbolTable offset st b1 r1 = Inr ((dynsymTable, b2), r2)"
      "fillSections (getSections b2) r2 = Inr (secs, r')"
      "stringPass (symnum st) (b2\<lparr>getSections := secs\<rparr>) symTable = Inr symTable'"
      "b = dynPass (symnum st) (indirsymnum st) symTable' dynsymTable
             (if symnum st > 0 then b2\<lparr>getSections := secs, getSymbolTable := symTable'\<rparr>
              else b2\<lparr>getSections := secs\<rparr>)"
    by (rule finishHeader_steps)
  note a = readSymbolTable_cases [OF s(1)]
  note d = readDynSymbolTable_cases [OF s(2)]
  from a d t have e: "getSymbolTable b2 = []" "getDynSymbolTable b2 = []"
    by (simp_all add: sameTables_def)
  from a have a1: "length symTable = unat (symnum st)"
    and a2: "\<forall>e \<in> set symTable. getString e = []"
    by simp_all
  from d have d1: "length dynsymTable = unat (indirsymnum st)"
    and d2: "\<forall>e \<in> set dynsymTable. getString e = [] \<and> getValue e = 0"
    by simp_all
  show thesis
    by (rule that [OF a1 a2 d1 d2 e s(3,4,5)])
qed


lemma dynPass_fields:
  "getSymbolTable (dynPass sn isn t d b) = getSymbolTable b \<and>
   getSections (dynPass sn isn t d b) = getSections b"
  by (simp add: dynPass_def)

text \<open>
  Claim C3, the part that holds. In a decoded object with a String Table section, the
  name of every primary symbol is made of the bytes of the section's content from the
  symbol's string index on, up to the first zero byte or the end of the content; the
  index is not negative as an \<open>int\<close>, and an index at or past the end of the content
  gives the empty name.
\<close>

lemma symbol_names_resolved:
  assumes "parseHeader offset size' r = Inr (b, r')"
    and "getSection String b = Some strTable"
    and "e \<in> set (getSymbolTable b)"
  shows "0 \<le> sint (getIndex e) \<and>
     getString e =
       takeWhile (\<lambda>c. c \<noteq> CHR 0x00) (drop (unat (getIndex e)) (getData strTable))"
proof -
  from assms(1) obtain st :: Locals and symTable dynsymTable b2 r2 secs symTable' where
    s: "getSymbolTable b2 = []"
      "stringPass (symnum st) (b2\<lparr>getSections := secs\<rparr>) symTable = Inr symTable'"
      "b = dynPass (symnum st) (indirsymnum st) symTable' dynsymTable
             (if symnum st > 0 then b2\<lparr>getSections := secs, getSymbolTable := symTable'\<rparr>
              else b2\<lparr>getSections := secs\<rparr>)"
    by (rule parseHeader_steps)
  from s(3) have tab: "getSymbolTable b = (if symnum st > 0 then symTable' else getSymbolTable b2)"
    and secs: "getSections b = secs"
    by (simp_all add: dynPass_fields)
  from assms(3) tab s(1) have pos: "symnum st > 0" and tab': "getSymbolTable b = symTable'"
    by (auto split: if_splits)
  from assms(2) secs have "getSection String (b2\<lparr>getSections := secs\<rparr>) = Some strTable"
    by (simp add: getSection_def)
  with s(2) pos have "mergeStrings (getData strTable) symTable = Inr symTable'"
    by (simp add: stringPass_def)
  from mergeStrings_Inr [OF this] assms(3) tab' obtain e0 where
    e0: "e0 \<in> set symTable" "0 \<le> sint (getIndex e0)"
      "e = e0\<lparr>getString := takeWhile (\<lambda>c. c \<noteq> CHR 0x00)
                               (drop (nat (sint (getIndex e0))) (getData strTable))\<rparr>"
    by auto
  from e0(2,3) sint_index_nat [OF e0(2)] show ?thesis
    by simp
qed

text \<open>
  For a symbol table of at most \<open>2 ^ 31\<close> entries, the index is in the range of the
  code exactly when it is below the number of entries as an unsigned value.
\<close>

lemma index_in_range_unsigned:
  fixes w :: quint32
  assumes "n \<le> 2 ^ 31"
  shows "0 \<le> sint w \<and> sint w < int n \<longleftrightarrow> unat w < n"
proof (cases "0 \<le> sint w")
  case True
  have "int (nat (sint w)) = sint w"
    using True by simp
  then have a: "int (unat w) = sint w"
    unfolding sint_index_nat [OF True] .
  have "sint w < int n \<longleftrightarrow> unat w < n"
    unfolding a [symmetric] by (rule of_nat_less_iff)
  with True show ?thesis
    by blast
next
  case False
  have "\<not> unat w < 2 ^ 31"
  proof
    assume "unat w < 2 ^ 31"
    then have "int (unat w) < int (2 ^ 31)"
      by (rule iffD2 [OF of_nat_less_iff])
    then have "uint w < 2 ^ 31"
      by simp
    moreover have "- (2 ^ 31) \<le> (0 :: int)"
      by simp
    then have "- (2 ^ 31) \<le> uint w"
      using uint_ge_0 [of w] by (rule order_trans)
    ultimately have "signed_take_bit 31 (uint w) = uint w"
      by (intro signed_take_bit_int_eq_self)
    then have "sint w = uint w"
      by (simp add: sint_uint)
    with False show False
      by simp
  qed
  with assms False show ?thesis
    by simp
qed

section \<open>Dynamic symbols\<close>




section \<open>String indices\<close>

text \<open>
  Claim C3, on examples: the string table of \<open>sliceSymbols\<close> with the string indices 0 and 4,
  and with the indices 8 and 1000, which are past its end.
\<close>

lemma sliceSymbols_names:
  "(case parseHeader 0 0 (newReader True sliceSymbols) of
      Inl e \<Rightarrow> None
    | Inr (b, r) \<Rightarrow> Some (map (\<lambda>e. (getIndex e, getString e)) (getSymbolTable b))) =
   Some [(0, ''foo''), (4, ''bar'')]"
  by code_simp

lemma sliceOutOfRange_names:
  "(case parseHeader 0 0 (newReader True sliceOutOfRange) of
      Inl e \<Rightarrow> None
    | Inr (b, r) \<Rightarrow> Some (map (\<lambda>e. (getIndex e, getString e)) (getSymbolTable b))) =
   Some [(8, []), (1000, [])]"
  by code_simp

text \<open>
  Claim C3, where the code fails. The string index 0x80000000 of \<open>sliceNegIndex\<close> is out
  of range. As an \<open>int\<close> it is negative and so below the size of the string table: the
  loop reads the content at a negative position instead of leaving the name empty.
\<close>

theorem negative_string_index_out_of_bounds:
  "parseHeader 0 0 (newReader True sliceNegIndex) = Inl OutOfBounds \<and>
   parse True (Some sliceNegIndex) [] = Undefined"
  by code_simp

section \<open>Further facts\<close>

text \<open>
  The CPU type of a decoded object is that of the second word of the slice's own header,
  read in the byte order of the slice.
\<close>

lemma parseHeader_cpuType:
  assumes "parseHeader offset size' r = Inr (b, r')"
  shows "getCpuType b =
     cpuTypeOf (wordAt (r\<lparr>littleEndian := isLittleEndian b\<rparr>) 4 (unat offset + 4))"
proof -
  from assms obtain p r1 where
    h: "readHeader offset r = Inr (p, r1)" and
    rest: "(case p of (st, ncmds) \<Rightarrow>
             andThen (loadCommands offset (getSystemBits (binaryObject st)) (unat ncmds) st)
               (finishHeader offset (getSystemBits (binaryObject st)))) r1 = Inr (b, r')"
    unfolding parseHeader_def by (rule andThen_Inr)
  obtain st ncmds where p: "p = (st, ncmds)" by (cases p)
  from rest [unfolded p prod.case] obtain st2 r2 where
    l: "loadCommands offset (getSystemBits (binaryObject st)) (unat ncmds) st r1 = Inr (st2, r2)"
    and f: "finishHeader offset (getSystemBits (binaryObject st)) st2 r2 = Inr (b, r')"
    by (rule andThen_Inr)
  have s: "sameHeader (binaryObject st) b"
    using ensuresD [OF loadCommands_sameHeader l] ensuresD [OF finishHeader_sameHeader f]
    by (rule sameHeader_trans)
  let ?r0 = "setLittleEndian True (seek (unat offset) r)"
  from h [unfolded p] obtain magic q where m: "getUInt32 ?r0 = (Some magic, q)"
    by (cases "getUInt32 ?r0")
       (auto simp: readHeader_def andThen_modify andThen_checked split: option.splits)
  note a = getUInt32_at [OF m]
  let ?q = "setLittleEndian (littleEndianOf magic) q"
  from h [unfolded p] m obtain cputype q' where c: "getUInt32 ?q = (Some cputype, q')"
    by (cases "getUInt32 ?q")
       (auto simp: readHeader_def andThen_modify andThen_checked split: option.splits)
  note d = getUInt32_at [OF c]
  from h [unfolded p] m c have
    "getCpuType (binaryObject st) = cpuTypeOf cputype \<and>
     isLittleEndian (binaryObject st) = littleEndianOf magic"
    by (auto simp: readHeader_def andThen_modify andThen_checked andThen_untested
          andThen_ret andThen_assoc ret_def
        split: option.splits prod.splits if_splits)
  with s have "getCpuType b = cpuTypeOf cputype" and "isLittleEndian b = littleEndianOf magic"
    by (simp_all add: sameHeader_def)
  moreover from a d have
    "cputype = wordAt (r\<lparr>littleEndian := littleEndianOf magic\<rparr>) 4 (unat offset + 4)"
    by (simp add: wordAt_def seek_def setLittleEndian_def)
  ultimately show ?thesis
    by simp
qed

text \<open>
  Loading the contents of the sections and resolving the dynamic symbols have no failing
  path: once both tables are read and the names of the primary symbols are resolved, the
  slice is decoded, whatever the indices of the dynamic symbols are.
\<close>

lemma fillSections_succeeds: "\<exists>secs r'. fillSections xs r = Inr (secs, r')"
proof (induction xs arbitrary: r)
  case Nil
  show ?case by (simp add: ret_def)
next
  case (Cons sec xs)
  let ?r1 = "snd (read (unat (getSize sec)) (seek (unat (getOffset sec)) r))"
  from Cons [of ?r1] obtain secs r' where "fillSections xs ?r1 = Inr (secs, r')"
    by blast
  then have "fillSections (sec # xs) r =
      Inr (sec\<lparr>getData := fst (read (unat (getSize sec)) (seek (unat (getOffset sec)) r))\<rparr>
             # secs, r')"
    by (simp add: andThen_modify andThen_untested)
       (simp add: andThen_def ret_def)
  then show ?case
    by blast
qed

lemma finishHeader_succeeds:
  assumes "readSymbolTable off bits st r = Inr ((symTable, b1), r1)"
    and "readDynSymbolTable off st b1 r1 = Inr ((dynsymTable, b2), r2)"
    and "fillSections (getSections b2) r2 = Inr (secs, r3)"
    and "stringPass (symnum st) (b2\<lparr>getSections := secs\<rparr>) symTable = Inr symTable'"
  shows "finishHeader off bits st r =
     Inr (dynPass (symnum st) (indirsymnum st) symTable' dynsymTable
            (if symnum st > 0 then b2\<lparr>getSections := secs, getSymbolTable := symTable'\<rparr>
             else b2\<lparr>getSections := secs\<rparr>), r3)"
  using assms
  by (simp add: finishHeader_def andThen_def liftE_def ret_def)

text \<open>
  The file offsets of the sections of \<open>sliceStubs\<close>, decoded as a file of its own and as
  the slice at the base offset 28 of \<open>fatStubs\<close>.
\<close>

lemma sliceStubs_section_offsets:
  "(case parseHeader 0 0 (newReader True sliceStubs) of
      Inl e \<Rightarrow> None
    | Inr (b, r) \<Rightarrow> Some (map getOffset (getSections b))) = Some [300, 292, 256, 280] \<and>
   (case parseHeader 28 0 (newReader True fatStubs) of
      Inl e \<Rightarrow> None
    | Inr (b, r) \<Rightarrow> Some (map getOffset (getSections b))) = Some [328, 320, 284, 308]"
  by code_simp

text \<open>
  In the slice of \<open>fatStubs\<close> the symbol entries are read at the position 256 of the
  file, which is 228 bytes into the slice and not its symbol table: the values of the
  decoded symbols are 3 and 0, while the content loaded for the Symbol Table section, from
  the offset 284, is that of the two symbols of \<open>sliceStubs\<close>.
\<close>

lemma fatStubs_symbols:
  "(case parseHeader 28 0 (newReader True fatStubs) of
      Inl e \<Rightarrow> None
    | Inr (b, r) \<Rightarrow>
        Some (map (\<lambda>e. (getIndex e, getValue e)) (getSymbolTable b),
              map getData (filter (\<lambda>sec. getType sec = Symbols) (getSections b)))) =
   Some ([(0, 3), (0, 0)], [take 24 (drop 256 sliceStubs)])"
  by code_simp

section \<open>File offsets in the decoded object\<close>

text \<open>
  For the sections whose address is the offset read from the load command (String
  Table, Function Starts, Code Signature, Symbol Table, Dynamic Symbol Table), the
  decoded object shows the relation directly: the file offset is the base offset plus
  the address.
\<close>

lemma offsetsFrom_addSection:
  "offsetsFrom B b \<Longrightarrow>
   (t \<in> {String, FuncStarts, CodeSig, Symbols, DynSymbols} \<Longrightarrow> off = B + ucast addr) \<Longrightarrow>
   offsetsFrom B (addSection (newSection t n addr sz off) b)"
  by (auto simp: offsetsFrom_def addSection_def newSection_def)

lemma ucast_ucast_32_64: "(ucast (ucast (w :: quint32) :: quint64) :: quint32) = w"
  by transfer simp

lemma offsetsFrom_storeSection:
  "offsetsFrom B b \<Longrightarrow> offsetsFrom B (storeSection B sn sg a sz fo b)"
  by (auto simp: storeSection_def intro!: offsetsFrom_addSection)

lemma readSections_offsetsFrom:
  "offsetsFrom B b \<Longrightarrow> ensures (readSections B bits n b) (offsetsFrom B)"
proof (induction n arbitrary: b)
  case 0
  then show ?case by (simp add: ensures_ret)
next
  case (Suc n)
  have s: "ensures (readSection B bits b) (offsetsFrom B)"
    unfolding readSection_def
    by (intro ensures_andThen ensures_ret offsetsFrom_storeSection Suc.prems)
  show ?case
    unfolding readSections.simps
    by (rule ensures_andThen2 [OF s]) (rule Suc.IH)
qed

lemma loadCommand_offsetsFrom:
  assumes "offsetsFrom B (binaryObject st)"
  shows "ensures (loadCommand B bits st) (\<lambda>st'. offsetsFrom B (binaryObject st'))"
proof -
  have seg: "ensures (lcSegment B bits st) (\<lambda>st'. offsetsFrom B (binaryObject st'))"
    unfolding lcSegment_def
    apply (intro ensures_andThen2 [OF readSections_offsetsFrom [OF assms]] ensures_andThen)
    apply (rule ensures_ret)
    apply simp
    done
  have sym: "ensures (lcSymtab B st) (\<lambda>st'. offsetsFrom B (binaryObject st'))"
    unfolding lcSymtab_def
    by (intro ensures_andThen ensures_ret)
       (simp add: offsetsFrom_addSection assms ucast_ucast_32_64)
  have dys: "ensures (lcDysymtab st) (\<lambda>st'. offsetsFrom B (binaryObject st'))"
    unfolding lcDysymtab_def
    by (intro ensures_andThen ensures_ret) (simp add: assms)
  have lnk: "ensures (lcLinkedit B ty st) (\<lambda>st'. offsetsFrom B (binaryObject st'))" for ty
    unfolding lcLinkedit_def
    by (intro ensures_andThen ensures_ret)
       (simp add: offsetsFrom_addSection assms ucast_ucast_32_64)
  show ?thesis
    unfolding loadCommand_def
    by (intro ensures_andThen ensures_if ensures_fail seg sym dys lnk ensures_ret assms)
qed

lemma loadCommands_offsetsFrom:
  "offsetsFrom B (binaryObject st) \<Longrightarrow>
   ensures (loadCommands B bits n st) (\<lambda>st'. offsetsFrom B (binaryObject st'))"
proof (induction n arbitrary: st)
  case 0
  then show ?case by (simp add: ensures_ret)
next
  case (Suc n)
  show ?case
    unfolding loadCommands.simps
    by (rule ensures_andThen2 [OF loadCommand_offsetsFrom [OF Suc.prems]]) (rule Suc.IH)
qed

lemma fillSections_fields:
  "fillSections xs r = Inr (secs, r') \<Longrightarrow>
   map (\<lambda>sec. (getType sec, getAddress sec, getOffset sec)) secs =
   map (\<lambda>sec. (getType sec, getAddress sec, getOffset sec)) xs"
proof (induction xs arbitrary: r secs r')
  case Nil
  then show ?case by (simp add: ret_def)
next
  case (Cons sec xs)
  from Cons.prems obtain d r1 secs1 where
    f: "fillSections xs r1 = Inr (secs1, r')" and s: "secs = sec\<lparr>getData := d\<rparr> # secs1"
    by (auto simp: andThen_modify andThen_untested ret_def elim!: andThen_Inr)
  from Cons.IH [OF f] s show ?case
    by simp
qed

lemma offsetsFrom_fields:
  assumes "map (\<lambda>sec. (getType sec, getAddress sec, getOffset sec)) (getSections b') =
           map (\<lambda>sec. (getType sec, getAddress sec, getOffset sec)) (getSections b)"
    and "offsetsFrom B b"
  shows "offsetsFrom B b'"
proof -
  have "list_all (\<lambda>t. fst t \<in> {String, FuncStarts, CodeSig, Symbols, DynSymbols} \<longrightarrow>
                     snd (snd t) = B + ucast (fst (snd t)))
          (map (\<lambda>sec. (getType sec, getAddress sec, getOffset sec)) (getSections b))"
    using assms(2) by (simp add: offsetsFrom_def list_all_iff)
  then have "list_all (\<lambda>t. fst t \<in> {String, FuncStarts, CodeSig, Symbols, DynSymbols} \<longrightarrow>
                     snd (snd t) = B + ucast (fst (snd t)))
          (map (\<lambda>sec. (getType sec, getAddress sec, getOffset sec)) (getSections b'))"
    unfolding assms(1) .
  then show ?thesis
    by (simp add: offsetsFrom_def list_all_iff)
qed

lemma parseHeader_offsetsFrom:
  assumes "parseHeader offset size' r = Inr (b, r')"
  shows "offsetsFrom offset b"
proof -
  from assms obtain p q where
    h: "readHeader offset r = Inr (p, q)" and
    rest: "(case p of (st, ncmds) \<Rightarrow>
             andThen (loadCommands offset (getSystemBits (binaryObject st)) (unat ncmds) st)
               (finishHeader offset (getSystemBits (binaryObject st)))) q = Inr (b, r')"
    unfolding parseHeader_def by (rule andThen_Inr)
  obtain st0 ncmds where p: "p = (st0, ncmds)" by (cases p)
  from rest [unfolded p prod.case] obtain st q' where
    l: "loadCommands offset (getSystemBits (binaryObject st0)) (unat ncmds) st0 q = Inr (st, q')"
    and f: "finishHeader offset (getSystemBits (binaryObject st0)) st q' = Inr (b, r')"
    by (rule andThen_Inr)
  have "ensures (readHeader offset) (\<lambda>p. getSections (binaryObject (fst p)) = [])"
    unfolding readHeader_def by (intro ensures_andThen ensures_ret) simp
  from ensuresD [OF this h] p have "offsetsFrom offset (binaryObject st0)"
    by (simp add: offsetsFrom_def)
  from ensuresD [OF loadCommands_offsetsFrom [OF this] l]
  have o1: "offsetsFrom offset (binaryObject st)" .
  from f obtain symTable b1 r1 dynsymTable b2 r2 secs symTable' where
    s: "readSymbolTable offset (getSystemBits (binaryObject st0)) st q' = Inr ((symTable, b1), r1)"
      "readDynSymbolTable offset st b1 r1 = Inr ((dynsymTable, b2), r2)"
      "fillSections (getSections b2) r2 = Inr (secs, r')"
      "b = dynPass (symnum st) (indirsymnum st) symTable' dynsymTable
             (if symnum st > 0 then b2\<lparr>getSections := secs, getSymbolTable := symTable'\<rparr>
              else b2\<lparr>getSections := secs\<rparr>)"
    by (rule finishHeader_steps)
  have o2: "offsetsFrom offset b1"
  proof (cases "0 < symnum st")
    case True
    from readSymbolTable_at [OF True s(1)] o1 show ?thesis
      by (simp add: offsetsFrom_addSection ucast_ucast_32_64)
  next
    case False
    then have "symnum st = 0" by (simp add: word_gt_0)
    with s(1) o1 show ?thesis
      by (simp add: readSymbolTable_def ret_def)
  qed
  have o3: "offsetsFrom offset b2"
  proof (cases "0 < indirsymnum st")
    case True
    from readDynSymbolTable_at [OF True s(2)] o2 show ?thesis
      by (simp add: offsetsFrom_addSection ucast_ucast_32_64)
  next
    case False
    then have "indirsymnum st = 0" by (simp add: word_gt_0)
    with s(2) o2 show ?thesis
      by (simp add: readDynSymbolTable_def ret_def)
  qed
  from s(4) have "getSections b = secs"
    by (simp add: dynPass_fields)
  with fillSections_fields [OF s(3)] show ?thesis
    by (intro offsetsFrom_fields [OF _ o3]) simp
qed

section \<open>Steps that only move the reader\<close>

lemma movesD: "moves m \<Longrightarrow> m r = Inr (x, r') \<Longrightarrow> \<exists>p. r' = r\<lparr>pos := p\<rparr>"
  by (auto simp: moves_def)

lemma moved_self: "\<exists>p. (r :: Reader) = r\<lparr>pos := p\<rparr>"
  by (rule exI [of _ "pos r"]) simp

lemma moved_to: "\<exists>p. (r :: Reader)\<lparr>pos := q\<rparr> = r\<lparr>pos := p\<rparr>"
  by (rule exI [of _ q]) simp

lemma moves_ret: "moves (ret x)"
  by (simp add: moves_def ret_def moved_self)

lemma moves_fail: "moves (fail e)"
  by (simp add: moves_def fail_def)

lemma moves_andThen: "moves m \<Longrightarrow> (\<And>x. moves (f x)) \<Longrightarrow> moves (andThen m f)"
  unfolding moves_def
proof (intro allI impI)
  fix r y r''
  assume m: "\<forall>r x r'. m r = Inr (x, r') \<longrightarrow> (\<exists>p. r' = r\<lparr>pos := p\<rparr>)"
    and f: "\<And>x. \<forall>r y r'. f x r = Inr (y, r') \<longrightarrow> (\<exists>p. r' = r\<lparr>pos := p\<rparr>)"
    and a: "andThen m f r = Inr (y, r'')"
  from a obtain x r' where s: "m r = Inr (x, r')" "f x r' = Inr (y, r'')"
    by (rule andThen_Inr)
  from m s(1) obtain p where "r' = r\<lparr>pos := p\<rparr>" by blast
  moreover from f s(2) obtain q where "r'' = r'\<lparr>pos := q\<rparr>" by blast
  ultimately have "r'' = r\<lparr>pos := q\<rparr>" by simp
  then show "\<exists>p. r'' = r\<lparr>pos := p\<rparr>" ..
qed

lemma moves_if: "moves a \<Longrightarrow> moves b \<Longrightarrow> moves (if c then a else b)"
  by simp

lemma moves_prod: "(\<And>a b. moves (f a b)) \<Longrightarrow> moves (case p of (a, b) \<Rightarrow> f a b)"
  by (cases p) simp

lemma read_moves: "snd (read n r) = r\<lparr>pos := pos r + length (take n (drop (pos r) (dev r)))\<rparr>"
  by (simp add: read_def Let_def)

lemma getUInt_moves: "\<exists>p. snd (getUInt n r) = r\<lparr>pos := p\<rparr>"
  by (simp add: getUInt_def read_def Let_def moved_to)

lemma moves_checked:
  assumes "\<And>r. \<exists>p. snd (g r) = r\<lparr>pos := p\<rparr>"
  shows "moves (checked g)"
  unfolding moves_def
proof (intro allI impI)
  fix r x r' assume "checked g r = Inr (x, r')"
  then have "snd (g r) = r'"
    by (cases "g r") (auto simp: checked_def split: option.splits)
  with assms [of r] show "\<exists>p. r' = r\<lparr>pos := p\<rparr>" by simp
qed

lemma moves_untested:
  assumes "\<And>r. \<exists>p. snd (g r) = r\<lparr>pos := p\<rparr>"
  shows "moves (untested g)"
  unfolding moves_def
proof (intro allI impI)
  fix r x r' assume "untested g r = Inr (x, r')"
  then have "snd (g r) = r'"
    by (cases "g r") (auto simp: untested_def)
  with assms [of r] show "\<exists>p. r' = r\<lparr>pos := p\<rparr>" by simp
qed

lemma moves_getUInt32: "moves (checked getUInt32)"
  by (rule moves_checked) (simp add: getUInt32_def getUInt_moves)

lemma moves_getUInt64: "moves (checked getUInt64)"
  by (rule moves_checked) (simp add: getUInt64_def getUInt_moves)

lemma moves_getUInt16: "moves (checked getUInt16)"
  by (rule moves_checked) (simp add: getUInt16_def getUInt_moves)

lemma moves_getUChar: "moves (checked getUChar)"
  by (rule moves_checked) (simp add: getUChar_def getUInt_moves)

lemma moves_untested_getUInt32: "moves (untested getUInt32)"
  by (rule moves_untested) (simp add: getUInt32_def getUInt_moves)

lemma moves_read: "moves (untested (read n))"
  by (rule moves_untested) (simp add: read_moves moved_to)

lemma moves_seek: "moves (modify (seek p))"
  by (simp add: moves_def modify_def seek_def moved_to)

lemma moves_getPos: "moves getPos"
  unfolding getPos_def by (rule moves_untested) (simp add: moved_self)

lemma moves_liftE: "moves (liftE x)"
  by (auto simp: moves_def liftE_def moved_self split: sum.splits)

lemmas moves_basic =
  moves_ret moves_fail moves_liftE moves_andThen moves_if moves_prod
  moves_getUInt32 moves_getUInt64 moves_getUInt16 moves_getUChar
  moves_untested_getUInt32 moves_read moves_seek moves_getPos

lemma moves_skipUInt32: "moves (skipUInt32 n)"
  by (induction n) (auto intro!: moves_basic)

lemma moves_getAddr: "moves (getAddr bits)"
  unfolding getAddr_def by (intro moves_basic)

lemma moves_readSection: "moves (readSection off bits b)"
  unfolding readSection_def by (intro moves_basic moves_skipUInt32 moves_getAddr)

lemma moves_readSections: "moves (readSections off bits n b)"
  by (induction n arbitrary: b) (auto intro!: moves_basic moves_readSection)

lemma moves_loadCommand: "moves (loadCommand off bits st)"
  unfolding loadCommand_def lcSegment_def lcSymtab_def lcDysymtab_def lcLinkedit_def
    readName_def
  by (intro moves_basic moves_skipUInt32 moves_getAddr moves_readSections)

lemma moves_loadCommands: "moves (loadCommands off bits n st)"
  by (induction n arbitrary: st) (auto intro!: moves_basic moves_loadCommand)

lemma moves_readSymbols: "moves (readSymbols bits n acc)"
proof (induction n arbitrary: acc)
  case 0
  show ?case by (simp add: moves_ret)
next
  case (Suc n)
  have "moves (readSymbol bits acc)"
    unfolding readSymbol_def by (intro moves_basic moves_getAddr)
  with Suc show ?case
    by (auto intro!: moves_andThen)
qed

lemma moves_readDynSymbols: "moves (readDynSymbols n acc)"
proof (induction n arbitrary: acc)
  case 0
  show ?case by (simp add: moves_ret)
next
  case (Suc n)
  have "moves (readDynSymbol acc)"
    unfolding readDynSymbol_def by (intro moves_basic)
  with Suc show ?case
    by (auto intro!: moves_andThen)
qed

lemma moves_fillSections: "moves (fillSections secs)"
  by (induction secs) (auto intro!: moves_basic)

lemma moves_finishHeader: "moves (finishHeader off bits st)"
  unfolding finishHeader_def readSymbolTable_def readDynSymbolTable_def
  by (intro moves_basic moves_readSymbols moves_readDynSymbols moves_fillSections)

section \<open>Where the offsets of the sections are read\<close>

lemma read_at:
  "untested (read n) r = Inr (bs, r') \<Longrightarrow>
   bs = take n (drop (pos r) (dev r)) \<and> r' = r\<lparr>pos := pos r + length bs\<rparr>"
  by (auto simp: untested_def read_def Let_def)

lemma getAddr_bound:
  assumes "getAddr bits r = Inr (v, r')"
  shows "pos r + (if bits = 32 then 4 else 8) \<le> length (dev r)"
proof (cases "bits = 32")
  case True
  with assms obtain w where "checked getUInt32 r = Inr (w, r')"
    by (auto simp: getAddr_def ret_def elim!: andThen_Inr)
  with checked_getUInt32_at [of r w r'] True show ?thesis by simp
next
  case False
  with assms have "checked getUInt64 r = Inr (v, r')"
    by (simp add: getAddr_def)
  with checked_getUInt64_at [of r v r'] False show ?thesis by simp
qed

lemma skipUInt32_at:
  "skipUInt32 n r = Inr (u, r') \<Longrightarrow> r' = r\<lparr>pos := pos r + 4 * n\<rparr>"
proof (induction n arbitrary: r)
  case 0
  then show ?case by (simp add: ret_def)
next
  case (Suc n)
  from Suc.prems obtain w r1 where
    s: "checked getUInt32 r = Inr (w, r1)" and rec: "skipUInt32 n r1 = Inr (u, r')"
    by (auto elim: andThen_Inr)
  from checked_getUInt32_at [OF s] Suc.IH [OF rec] show ?case
    by simp
qed

lemma addrAt_pos: "addrAt bits (r\<lparr>pos := q\<rparr>) p = addrAt bits r p"
  by (simp add: addrAt_def wordAt_pos)

lemma readSection_at:
  assumes "readSection B bits b r = Inr (b', r')"
  defines "a \<equiv> (if bits = 32 then 4 else 8 :: nat)"
  shows "pos r + 36 + 2 * a \<le> length (dev r) \<and>
         b' = storeSection B (QString (take 16 (drop (pos r) (dev r))))
                (QString (take 16 (drop (pos r + 16) (dev r))))
                (addrAt bits r (pos r + 32)) (addrAt bits r (pos r + 32 + a))
                (wordAt r 4 (pos r + 32 + 2 * a)) b"
proof -
  from assms(1) obtain sn r1 sg r2 addr r3 sz r4 fo r5 u1 r6 u2 r7 u3 r8 u4 r9 where
    s1: "untested (read 16) r = Inr (sn, r1)" and
    s2: "untested (read 16) r1 = Inr (sg, r2)" and
    s3: "getAddr bits r2 = Inr (addr, r3)" and
    s4: "getAddr bits r3 = Inr (sz, r4)" and
    s5: "checked getUInt32 r4 = Inr (fo, r5)" and
    s6: "skipUInt32 4 r5 = Inr (u1, r6)" and
    s7: "untested getUInt32 r6 = Inr (u2, r7)" and
    s8: "untested getUInt32 r7 = Inr (u3, r8)" and
    s9: "(if bits = 64 then andThen (untested getUInt32) (\<lambda>_. ret ()) else ret ()) r8 =
           Inr (u4, r9)" and
    s10: "ret (storeSection B (QString sn) (QString sg) addr sz fo b) r9 = Inr (b', r')"
    unfolding readSection_def by (elim andThen_Inr) blast
  note a1 = read_at [OF s1]
  note a2 = read_at [OF s2]
  from a1 a2 have d2: "dev r2 = dev r" and p2: "pos r2 = pos r + length sn + length sg"
    by simp_all
  from getAddr_bound [OF s3] d2 p2 have bnd: "pos r + length sn + length sg + a \<le> length (dev r)"
    by (simp add: a_def)
  have apos: "4 \<le> a" by (simp add: a_def)
  from a1 have l1: "length sn = min 16 (length (dev r) - pos r)"
    by (simp add: min.commute)
  from a1 a2 have l2: "length sg = min 16 (length (dev r) - (pos r + length sn))"
    by (simp add: min.commute)
  from bnd apos l1 l2 have len: "length sn = 16" "length sg = 16"
    by (auto simp: min_def split: if_splits)
  from a1 a2 len have r2: "r2 = r\<lparr>pos := pos r + 32\<rparr>"
    and sn: "sn = take 16 (drop (pos r) (dev r))"
    and sg: "sg = take 16 (drop (pos r + 16) (dev r))"
    by simp_all
  from getAddr_at [OF s3] r2 have addr: "addr = addrAt bits r (pos r + 32)"
    and r3: "r3 = r\<lparr>pos := pos r + 32 + a\<rparr>"
    by (simp_all add: addrAt_def wordAt_pos a_def)
  from getAddr_at [OF s4] r3 have sz: "sz = addrAt bits r (pos r + 32 + a)"
    and r4: "r4 = r\<lparr>pos := pos r + 32 + 2 * a\<rparr>"
    by (simp_all add: addrAt_def wordAt_pos a_def)
  from checked_getUInt32_at [OF s5] r4 have fo: "fo = wordAt r 4 (pos r + 32 + 2 * a)"
    and bound: "pos r + 36 + 2 * a \<le> length (dev r)"
    by (simp_all add: wordAt_pos)
  from s10 have "b' = storeSection B (QString sn) (QString sg) addr sz fo b"
    by (simp add: ret_def)
  with bound sn sg addr sz fo show ?thesis
    by simp
qed

lemma fromRecord_pos: "fromRecord bits (r\<lparr>pos := q\<rparr>) p sec = fromRecord bits r p sec"
  by (simp add: fromRecord_def wordAt_pos addrAt_pos)

lemma offsetsRead_pos: "offsetsRead B bits (r\<lparr>pos := q\<rparr>) secs = offsetsRead B bits r secs"
  by (simp add: offsetsRead_def fromRecord_pos wordAt_pos)

lemma localsRead_pos: "localsRead (r\<lparr>pos := q\<rparr>) st = localsRead r st"
  by (simp add: localsRead_def wordAt_pos)

lemma offsetsRead_append:
  "offsetsRead B bits r secs \<Longrightarrow> fromRecord bits r p sec \<Longrightarrow>
   getOffset sec = B + wordAt r 4 (offsetField bits p (getType sec)) \<Longrightarrow>
   offsetsRead B bits r (secs @ [sec])"
  unfolding offsetsRead_def by auto

lemma storeSection_offsetsRead:
  assumes "offsetsRead B bits r (getSections b)"
    and "p + 36 + 2 * (if bits = 32 then 4 else 8) \<le> length (dev r)"
  shows "offsetsRead B bits r
           (getSections
              (storeSection B (QString (take 16 (drop p (dev r))))
                 (QString (take 16 (drop (p + 16) (dev r))))
                 (addrAt bits r (p + 32))
                 (addrAt bits r (p + 32 + (if bits = 32 then 4 else 8)))
                 (wordAt r 4 (p + 32 + 2 * (if bits = 32 then 4 else 8))) b))"
  using assms
  unfolding storeSection_def addSection_def
  by (auto intro!: offsetsRead_append [where p = p]
           simp: fromRecord_def newSection_def offsetField_def keptAs_def Let_def)

lemma readSections_offsetsRead:
  assumes "readSections B bits n b r = Inr (b', r')"
    and "offsetsRead B bits r (getSections b)"
  shows "offsetsRead B bits r (getSections b')"
  using assms
proof (induction n arbitrary: b r)
  case 0
  then show ?case by (simp add: ret_def)
next
  case (Suc n)
  from Suc.prems(1) obtain b1 r1 where
    s: "readSection B bits b r = Inr (b1, r1)" and
    rec: "readSections B bits n b1 r1 = Inr (b', r')"
    by (auto elim: andThen_Inr)
  from movesD [OF moves_readSection s] obtain q where r1: "r1 = r\<lparr>pos := q\<rparr>" ..
  note a = readSection_at [OF s]
  have "offsetsRead B bits r (getSections b1)"
    unfolding conjunct2 [OF a]
    by (rule storeSection_offsetsRead [OF Suc.prems(2) conjunct1 [OF a]])
  then have "offsetsRead B bits r1 (getSections b1)"
    by (simp add: r1 offsetsRead_pos)
  from Suc.IH [OF rec this] show ?case
    by (simp add: r1 offsetsRead_pos)
qed

lemma lcSegment_offsetsRead:
  assumes "lcSegment B bits st r = Inr (st', r')"
    and "offsetsRead B bits r (getSections (binaryObject st))"
  shows "offsetsRead B bits r (getSections (binaryObject st')) \<and>
         symoff st' = symoff st \<and> symnum st' = symnum st \<and>
         indirsymoff st' = indirsymoff st \<and> indirsymnum st' = indirsymnum st"
proof -
  from assms(1) obtain name r1 a1 r2 a2 r3 a3 r4 a4 r5 u1 r6 nsects r7 u2 r8 b r9 where
    s1: "untested (read 16) r = Inr (name, r1)" and
    s2: "getAddr bits r1 = Inr (a1, r2)" and
    s3: "getAddr bits r2 = Inr (a2, r3)" and
    s4: "getAddr bits r3 = Inr (a3, r4)" and
    s5: "getAddr bits r4 = Inr (a4, r5)" and
    s6: "skipUInt32 2 r5 = Inr (u1, r6)" and
    s7: "checked getUInt32 r6 = Inr (nsects, r7)" and
    s8: "skipUInt32 1 r7 = Inr (u2, r8)" and
    rs: "readSections B bits (unat nsects) (binaryObject st) r8 = Inr (b, r9)" and
    rt: "ret (st\<lparr>binaryObject := b\<rparr>) r9 = Inr (st', r')"
    unfolding lcSegment_def by (elim andThen_Inr) blast
  have "\<exists>q. r8 = r\<lparr>pos := q\<rparr>"
    using movesD [OF moves_read s1] movesD [OF moves_getAddr s2] movesD [OF moves_getAddr s3]
      movesD [OF moves_getAddr s4] movesD [OF moves_getAddr s5] movesD [OF moves_skipUInt32 s6]
      movesD [OF moves_getUInt32 s7] movesD [OF moves_skipUInt32 s8]
    by (elim exE) (simp add: moved_to)
  then obtain q where r8: "r8 = r\<lparr>pos := q\<rparr>" ..
  from assms(2) have "offsetsRead B bits r8 (getSections (binaryObject st))"
    by (simp add: r8 offsetsRead_pos)
  from readSections_offsetsRead [OF rs this] have "offsetsRead B bits r (getSections b)"
    by (simp add: r8 offsetsRead_pos)
  moreover from rt have "st' = st\<lparr>binaryObject := b\<rparr>"
    by (simp add: ret_def)
  ultimately show ?thesis
    by simp
qed

lemma lcSymtab_at:
  assumes "lcSymtab B st r = Inr (st', r')"
  shows "pos r + 16 \<le> length (dev r) \<and>
         st' = st\<lparr>binaryObject :=
                    addSection
                      (newSection String ''String Table''
                         (ucast (wordAt r 4 (pos r + 8) :: quint32))
                         (ucast (wordAt r 4 (pos r + 12) :: quint32))
                         (B + wordAt r 4 (pos r + 8)))
                      (binaryObject st),
                  symoff := wordAt r 4 (pos r), symnum := wordAt r 4 (pos r + 4)\<rparr>"
proof -
  from assms obtain w1 r1 w2 r2 w3 r3 w4 r4 where
    s1: "checked getUInt32 r = Inr (w1, r1)" and
    s2: "checked getUInt32 r1 = Inr (w2, r2)" and
    s3: "checked getUInt32 r2 = Inr (w3, r3)" and
    s4: "checked getUInt32 r3 = Inr (w4, r4)" and
    rt: "ret (st\<lparr>binaryObject :=
                 addSection (newSection String ''String Table'' (ucast w3)
                               (ucast w4) (B + w3)) (binaryObject st),
              symoff := w1, symnum := w2\<rparr>) r4 = Inr (st', r')"
    unfolding lcSymtab_def by (elim andThen_Inr) blast
  note a1 = checked_getUInt32_at [OF s1]
  from checked_getUInt32_at [OF s2] a1 have a2: "w2 = wordAt r 4 (pos r + 4)"
    "r2 = r\<lparr>pos := pos r + 8\<rparr>"
    by (simp_all add: wordAt_pos)
  from checked_getUInt32_at [OF s3] a2 have a3: "w3 = wordAt r 4 (pos r + 8)"
    "r3 = r\<lparr>pos := pos r + 12\<rparr>"
    by (simp_all add: wordAt_pos)
  from checked_getUInt32_at [OF s4] a3 have a4: "w4 = wordAt r 4 (pos r + 12)"
    "pos r + 16 \<le> length (dev r)"
    by (simp_all add: wordAt_pos)
  from rt a1 a2 a3 a4 show ?thesis
    by (simp add: ret_def)
qed

lemma lcDysymtab_at:
  assumes "lcDysymtab st r = Inr (st', r')"
  shows "pos r + 56 \<le> length (dev r) \<and>
         st' = st\<lparr>indirsymoff := wordAt r 4 (pos r + 48),
                  indirsymnum := wordAt r 4 (pos r + 52)\<rparr>"
proof -
  from assms obtain u1 r1 w1 r2 w2 r3 u2 r4 where
    s1: "skipUInt32 12 r = Inr (u1, r1)" and
    s2: "checked getUInt32 r1 = Inr (w1, r2)" and
    s3: "checked getUInt32 r2 = Inr (w2, r3)" and
    s4: "skipUInt32 4 r3 = Inr (u2, r4)" and
    rt: "ret (st\<lparr>indirsymoff := w1, indirsymnum := w2\<rparr>) r4 = Inr (st', r')"
    unfolding lcDysymtab_def by (elim andThen_Inr) blast
  from skipUInt32_at [OF s1] have r1: "r1 = r\<lparr>pos := pos r + 48\<rparr>"
    by simp
  from checked_getUInt32_at [OF s2] r1 have a2: "w1 = wordAt r 4 (pos r + 48)"
    "r2 = r\<lparr>pos := pos r + 52\<rparr>"
    by (simp_all add: wordAt_pos)
  from checked_getUInt32_at [OF s3] a2 have a3: "w2 = wordAt r 4 (pos r + 52)"
    "pos r + 56 \<le> length (dev r)"
    by (simp_all add: wordAt_pos)
  from rt a2 a3 show ?thesis
    by (simp add: ret_def)
qed

lemma lcLinkedit_at:
  assumes "lcLinkedit B ty st r = Inr (st', r')"
  shows "pos r + 8 \<le> length (dev r) \<and>
         st' =
           (if ty = 0x26 then
              st\<lparr>binaryObject :=
                   addSection
                     (newSection FuncStarts ''Function Starts''
                        (ucast (wordAt r 4 (pos r) :: quint32))
                        (ucast (wordAt r 4 (pos r + 4) :: quint32))
                        (B + wordAt r 4 (pos r)))
                     (binaryObject st)\<rparr>
            else if ty = 0x1D then
              st\<lparr>binaryObject :=
                   addSection
                     (newSection CodeSig ''Code Signature''
                        (ucast (wordAt r 4 (pos r) :: quint32))
                        (ucast (wordAt r 4 (pos r + 4) :: quint32))
                        (B + wordAt r 4 (pos r)))
                     (binaryObject st)\<rparr>
            else st)"
proof -
  from assms obtain w1 r1 w2 r2 where
    s1: "checked getUInt32 r = Inr (w1, r1)" and
    s2: "checked getUInt32 r1 = Inr (w2, r2)" and
    rt: "ret (if ty = 0x26 then
            st\<lparr>binaryObject :=
                 addSection (newSection FuncStarts ''Function Starts'' (ucast w1)
                               (ucast w2) (B + w1)) (binaryObject st)\<rparr>
          else if ty = 0x1D then
            st\<lparr>binaryObject :=
                 addSection (newSection CodeSig ''Code Signature'' (ucast w1)
                               (ucast w2) (B + w1)) (binaryObject st)\<rparr>
          else st) r2 = Inr (st', r')"
    unfolding lcLinkedit_def by (elim andThen_Inr) blast
  note a1 = checked_getUInt32_at [OF s1]
  from checked_getUInt32_at [OF s2] a1 have a2: "w2 = wordAt r 4 (pos r + 4)"
    "pos r + 8 \<le> length (dev r)"
    by (simp_all add: wordAt_pos)
  from rt a1 a2 show ?thesis
    by (auto simp: ret_def)
qed

lemma loadCommand_commandData:
  "loadCommand B bits st =
     andThen (checked getUInt32) (\<lambda>type.
     andThen (checked getUInt32) (\<lambda>cmdsize. commandData B bits st type cmdsize))"
  unfolding loadCommand_def commandData_def ..

lemma commandData_segment:
  "type = 1 \<or> type = 25 \<Longrightarrow> commandData B bits st type c = lcSegment B bits st"
  by (simp only: commandData_def if_True)

lemma commandData_symtab: "commandData B bits st 2 c = lcSymtab B st"
  by (simp add: commandData_def)

lemma commandData_dysymtab: "commandData B bits st 0xB c = lcDysymtab st"
  by (simp add: commandData_def)

lemma commandData_linkedit:
  assumes "type = 0x26 \<or> type = 0x2B \<or> type = 0x1E \<or> type = 0x1D"
  shows "commandData B bits st type c = lcLinkedit B type st"
  using assms
proof (elim disjE)
  assume "type = 0x26" then show ?thesis by (simp add: commandData_def)
next
  assume "type = 0x2B" then show ?thesis by (simp add: commandData_def)
next
  assume "type = 0x1E" then show ?thesis by (simp add: commandData_def)
next
  assume "type = 0x1D" then show ?thesis by (simp add: commandData_def)
qed

lemma commandData_other:
  assumes "\<not> (type = 1 \<or> type = 25)" and "type \<noteq> 2" and "type \<noteq> 0xB"
    and "\<not> (type = 0x26 \<or> type = 0x2B \<or> type = 0x1E \<or> type = 0x1D)"
  shows "ensures (commandData B bits st type c) (\<lambda>st'. st' = st)"
  unfolding commandData_def
  by (intro ensures_if ensures_andThen ensures_ret ensures_fail) (simp_all only: assms)

lemma loadCommand_cases:
  assumes "loadCommand B bits st r = Inr (st', r')"
  obtains
    (seg) "lcSegment B bits st (r\<lparr>pos := pos r + 8\<rparr>) = Inr (st', r')"
  | (sym) "(wordAt r 4 (pos r) :: quint32) = 2"
      "lcSymtab B st (r\<lparr>pos := pos r + 8\<rparr>) = Inr (st', r')"
  | (dys) "(wordAt r 4 (pos r) :: quint32) = 0xB"
      "lcDysymtab st (r\<lparr>pos := pos r + 8\<rparr>) = Inr (st', r')"
  | (lnk) "lcLinkedit B (wordAt r 4 (pos r)) st (r\<lparr>pos := pos r + 8\<rparr>) = Inr (st', r')"
  | (same) "st' = st"
proof -
  from assms obtain type r1 cmdsize r2 where
    s1: "checked getUInt32 r = Inr (type, r1)" and
    s2: "checked getUInt32 r1 = Inr (cmdsize, r2)" and
    rest: "commandData B bits st type cmdsize r2 = Inr (st', r')"
    unfolding loadCommand_commandData by (elim andThen_Inr)
  note a1 = checked_getUInt32_at [OF s1]
  from checked_getUInt32_at [OF s2] a1 have r2: "r2 = r\<lparr>pos := pos r + 8\<rparr>"
    by simp
  from a1 have ty: "type = wordAt r 4 (pos r)"
    by simp
  consider
    (a) "type = 1 \<or> type = 25" | (b) "type = 2" | (c) "type = 0xB"
    | (d) "type = 0x26 \<or> type = 0x2B \<or> type = 0x1E \<or> type = 0x1D"
    | (e) "\<not> (type = 1 \<or> type = 25)" "type \<noteq> 2" "type \<noteq> 0xB"
        "\<not> (type = 0x26 \<or> type = 0x2B \<or> type = 0x1E \<or> type = 0x1D)"
    by blast
  then show thesis
  proof cases
    case a
    from rest show thesis
      unfolding commandData_segment [OF a] r2 by (rule seg)
  next
    case b
    from rest have "lcSymtab B st r2 = Inr (st', r')"
      unfolding b commandData_symtab .
    with b show thesis
      unfolding r2 ty by (intro sym)
  next
    case c
    from rest have "lcDysymtab st r2 = Inr (st', r')"
      unfolding c commandData_dysymtab .
    with c show thesis
      unfolding r2 ty by (intro dys)
  next
    case d
    from rest [unfolded commandData_linkedit [OF d]] show thesis
      unfolding r2 ty by (rule lnk)
  next
    case e
    from ensuresD [OF commandData_other [OF e] rest] show thesis
      by (rule same)
  qed
qed

lemma offsetsRead_command:
  assumes "offsetsRead B bits r secs"
    and "t \<in> {String, FuncStarts, CodeSig, Symbols, DynSymbols}"
    and "offsetField bits p t + 4 \<le> length (dev r)"
    and "(wordAt r 4 p :: quint32) = commandOf t"
    and "t \<in> {String, FuncStarts, CodeSig} \<Longrightarrow>
         sz = ucast (wordAt r 4 (offsetField bits p t + 4) :: quint32)"
  shows "offsetsRead B bits r
           (secs @ [newSection t n (ucast (wordAt r 4 (offsetField bits p t) :: quint32)) sz
                      (B + wordAt r 4 (offsetField bits p t))])"
  using assms
  by (intro offsetsRead_append [where p = p])
     (auto simp: fromRecord_def newSection_def Let_def)

lemma loadCommand_offsetsRead:
  assumes "loadCommand B bits st r = Inr (st', r')"
    and "offsetsRead B bits r (getSections (binaryObject st))"
    and "localsRead r st"
  shows "offsetsRead B bits r (getSections (binaryObject st')) \<and> localsRead r st'"
  using assms(1)
proof (cases rule: loadCommand_cases)
  case seg
  from assms(2) have "offsetsRead B bits (r\<lparr>pos := pos r + 8\<rparr>) (getSections (binaryObject st))"
    by (simp add: offsetsRead_pos)
  from lcSegment_offsetsRead [OF seg this] assms(3) show ?thesis
    by (simp add: offsetsRead_pos localsRead_def)
next
  case sym
  note a = lcSymtab_at [OF sym(2)]
  from a have bound: "pos r + 24 \<le> length (dev r)"
    by simp
  from a have st': "st' = st\<lparr>binaryObject :=
                    addSection
                      (newSection String ''String Table''
                         (ucast (wordAt r 4 (pos r + 16) :: quint32))
                         (ucast (wordAt r 4 (pos r + 20) :: quint32))
                         (B + wordAt r 4 (pos r + 16)))
                      (binaryObject st),
                  symoff := wordAt r 4 (pos r + 8), symnum := wordAt r 4 (pos r + 12)\<rparr>"
    by (simp add: wordAt_pos add.assoc)
  have "offsetsRead B bits r
          (getSections (binaryObject st) @
           [newSection String ''String Table''
              (ucast (wordAt r 4 (offsetField bits (pos r) String) :: quint32))
              (ucast (wordAt r 4 (pos r + 20) :: quint32))
              (B + wordAt r 4 (offsetField bits (pos r) String))])"
    using bound sym(1)
    by (intro offsetsRead_command assms(2))
       (simp_all add: offsetField_def commandOf_def add.commute)
  then have o: "offsetsRead B bits r (getSections (binaryObject st'))"
    by (simp add: st' addSection_def offsetField_def)
  have "\<exists>p. p + 12 \<le> length (dev r) \<and> (wordAt r 4 p :: quint32) = 2 \<and>
            symoff st' = wordAt r 4 (p + 8)"
    using bound sym(1) by (intro exI [of _ "pos r"]) (simp add: st')
  with assms(3) have "localsRead r st'"
    by (simp add: localsRead_def st')
  with o show ?thesis ..
next
  case dys
  note a = lcDysymtab_at [OF dys(2)]
  from a have bound: "pos r + 64 \<le> length (dev r)"
    by simp
  from a have st': "st' = st\<lparr>indirsymoff := wordAt r 4 (pos r + 56),
                  indirsymnum := wordAt r 4 (pos r + 60)\<rparr>"
    by (simp add: wordAt_pos add.assoc)
  have "\<exists>p. p + 60 \<le> length (dev r) \<and> (wordAt r 4 p :: quint32) = 0xB \<and>
            indirsymoff st' = wordAt r 4 (p + 56)"
    using bound dys(1) by (intro exI [of _ "pos r"]) (simp add: st')
  with assms(3) have "localsRead r st'"
    by (simp add: localsRead_def st')
  moreover from assms(2) have "offsetsRead B bits r (getSections (binaryObject st'))"
    by (simp add: st')
  ultimately show ?thesis by simp
next
  case lnk
  note a = lcLinkedit_at [OF lnk]
  from a have bound: "pos r + 16 \<le> length (dev r)"
    by simp
  let ?ty = "wordAt r 4 (pos r) :: quint32"
  let ?sec = "\<lambda>t n. newSection t n (ucast (wordAt r 4 (pos r + 8) :: quint32))
                       (ucast (wordAt r 4 (pos r + 12) :: quint32))
                       (B + wordAt r 4 (pos r + 8))"
  from a have st': "st' =
      (if ?ty = 0x26 then
         st\<lparr>binaryObject := addSection (?sec FuncStarts ''Function Starts'') (binaryObject st)\<rparr>
       else if ?ty = 0x1D then
         st\<lparr>binaryObject := addSection (?sec CodeSig ''Code Signature'') (binaryObject st)\<rparr>
       else st)"
    by (simp add: wordAt_pos add.assoc)
  have f: "offsetsRead B bits r (getSections (binaryObject st) @ [?sec t n])"
    if "t \<in> {FuncStarts, CodeSig}" and "?ty = commandOf t" for t n
  proof -
    have "offsetsRead B bits r
          (getSections (binaryObject st) @
           [newSection t n (ucast (wordAt r 4 (offsetField bits (pos r) t) :: quint32))
              (ucast (wordAt r 4 (pos r + 12) :: quint32))
              (B + wordAt r 4 (offsetField bits (pos r) t))])"
      using bound that
      by (intro offsetsRead_command assms(2)) (auto simp: offsetField_def add.commute)
    with that(1) show ?thesis
      by (auto simp: offsetField_def)
  qed
  have "offsetsRead B bits r (getSections (binaryObject st'))"
    using f [of FuncStarts] f [of CodeSig] assms(2)
    by (simp add: st' addSection_def commandOf_def)
  moreover from assms(3) have "localsRead r st'"
    by (simp add: st' localsRead_def)
  ultimately show ?thesis ..
next
  case same
  with assms(2,3) show ?thesis by simp
qed

lemma loadCommands_offsetsRead:
  assumes "loadCommands B bits n st r = Inr (st', r')"
    and "offsetsRead B bits r (getSections (binaryObject st))"
    and "localsRead r st"
  shows "offsetsRead B bits r (getSections (binaryObject st')) \<and> localsRead r st'"
  using assms
proof (induction n arbitrary: st r)
  case 0
  then show ?case by (simp add: ret_def)
next
  case (Suc n)
  from Suc.prems(1) obtain st1 r1 where
    s: "loadCommand B bits st r = Inr (st1, r1)" and
    rec: "loadCommands B bits n st1 r1 = Inr (st', r')"
    by (auto elim: andThen_Inr)
  from movesD [OF moves_loadCommand s] obtain q where r1: "r1 = r\<lparr>pos := q\<rparr>" ..
  from loadCommand_offsetsRead [OF s Suc.prems(2,3)]
  have "offsetsRead B bits r1 (getSections (binaryObject st1))" and "localsRead r1 st1"
    by (simp_all add: r1 offsetsRead_pos localsRead_pos)
  from Suc.IH [OF rec this] show ?case
    by (simp add: r1 offsetsRead_pos localsRead_pos)
qed

lemma getUInt32_order: "getUInt32 r = (v, r') \<Longrightarrow> littleEndian r' = littleEndian r"
  by (auto simp: getUInt32_def getUInt_def read_def Let_def split: if_splits)

lemma getUInt32_order_snd: "littleEndian (snd (getUInt32 r)) = littleEndian r"
  by (cases "getUInt32 r") (simp add: getUInt32_order)

lemma readHeader_start:
  assumes "readHeader offset r = Inr ((st, ncmds), q)"
  shows "getSections (binaryObject st) = [] \<and> symnum st = 0 \<and> indirsymnum st = 0 \<and>
         littleEndian q = isLittleEndian (binaryObject st)"
proof -
  have "ensures (readHeader offset)
          (\<lambda>p. getSections (binaryObject (fst p)) = [] \<and> symnum (fst p) = 0 \<and>
               indirsymnum (fst p) = 0)"
    unfolding readHeader_def by (intro ensures_andThen ensures_ret) simp
  from ensuresD [OF this assms]
  have a: "getSections (binaryObject st) = [] \<and> symnum st = 0 \<and> indirsymnum st = 0"
    by simp
  let ?r0 = "setLittleEndian True (seek (unat offset) r)"
  obtain magic r' where m: "getUInt32 ?r0 = (Some magic, r')"
    using assms
    by (cases "getUInt32 ?r0")
       (auto simp: readHeader_def andThen_modify andThen_checked split: option.splits)
  let ?r1 = "setLittleEndian (littleEndianOf magic) r'"
  from assms m have
    "isLittleEndian (binaryObject st) = littleEndianOf magic \<and> littleEndian q = littleEndian ?r1"
    by (auto simp: readHeader_def andThen_modify andThen_checked andThen_untested
          andThen_ret andThen_assoc ret_def getUInt32_order_snd
        dest!: getUInt32_order
        split: option.splits prod.splits if_splits)
  with a show ?thesis
    by (simp add: setLittleEndian_def)
qed

lemma fromRecord_data: "fromRecord bits r p (sec\<lparr>getData := d\<rparr>) = fromRecord bits r p sec"
  by (simp add: fromRecord_def)

lemma fillSections_offsetsRead:
  assumes "fillSections xs r = Inr (secs, r')" and "offsetsRead B bits r0 xs"
  shows "offsetsRead B bits r0 secs"
  using assms
proof (induction xs arbitrary: r secs r')
  case Nil
  then show ?case by (simp add: ret_def)
next
  case (Cons sec xs)
  from Cons.prems(1) obtain d r1 secs1 where
    f: "fillSections xs r1 = Inr (secs1, r')" and s: "secs = sec\<lparr>getData := d\<rparr> # secs1"
    by (auto simp: andThen_modify andThen_untested ret_def elim!: andThen_Inr)
  from Cons.prems(2) have "offsetsRead B bits r0 xs"
    by (simp add: offsetsRead_def)
  from Cons.IH [OF f this] Cons.prems(2) s show ?case
    by (simp add: offsetsRead_def fromRecord_data)
qed

lemma wordAt_same:
  "dev r' = dev r \<Longrightarrow> littleEndian r' = littleEndian r \<Longrightarrow> wordAt r' n p = wordAt r n p"
  by (simp add: wordAt_def)

lemma parseHeader_offsetsRead:
  assumes "parseHeader B size' r = Inr (b, r')"
  shows "dev r' = dev r \<and> littleEndian r' = isLittleEndian b \<and>
         offsetsRead B (getSystemBits b) r' (getSections b)"
proof -
  from assms obtain p q where
    h: "readHeader B r = Inr (p, q)" and
    rest: "(case p of (st, ncmds) \<Rightarrow>
             andThen (loadCommands B (getSystemBits (binaryObject st)) (unat ncmds) st)
               (finishHeader B (getSystemBits (binaryObject st)))) q = Inr (b, r')"
    unfolding parseHeader_def by (rule andThen_Inr)
  obtain st0 ncmds where p: "p = (st0, ncmds)" by (cases p)
  define bits where "bits = getSystemBits (binaryObject st0)"
  from rest [unfolded p prod.case] obtain st q' where
    l: "loadCommands B bits (unat ncmds) st0 q = Inr (st, q')"
    and f: "finishHeader B bits st q' = Inr (b, r')"
    unfolding bits_def by (rule andThen_Inr)
  note start = readHeader_start [OF h [unfolded p]]
  from start have "offsetsRead B bits q (getSections (binaryObject st0))" and "localsRead q st0"
    by (simp_all add: offsetsRead_def localsRead_def)
  from loadCommands_offsetsRead [OF l this]
  have o1: "offsetsRead B bits q (getSections (binaryObject st))" and loc: "localsRead q st"
    by simp_all
  from movesD [OF moves_loadCommands l] obtain k where q': "q' = q\<lparr>pos := k\<rparr>" ..
  from movesD [OF moves_finishHeader f] q' obtain k' where r': "r' = q\<lparr>pos := k'\<rparr>"
    by auto
  from f obtain symTable b1 r1 dynsymTable b2 r2 secs symTable' where
    s: "readSymbolTable B bits st q' = Inr ((symTable, b1), r1)"
      "readDynSymbolTable B st b1 r1 = Inr ((dynsymTable, b2), r2)"
      "fillSections (getSections b2) r2 = Inr (secs, r')"
      "b = dynPass (symnum st) (indirsymnum st) symTable' dynsymTable
             (if symnum st > 0 then b2\<lparr>getSections := secs, getSymbolTable := symTable'\<rparr>
              else b2\<lparr>getSections := secs\<rparr>)"
    by (rule finishHeader_steps)
  have o2: "offsetsRead B bits q (getSections b1)"
  proof (cases "0 < symnum st")
    case True
    then have "symnum st \<noteq> 0" by simp
    with loc obtain p where
      p: "p + 12 \<le> length (dev q)" "(wordAt q 4 p :: quint32) = 2"
        "symoff st = wordAt q 4 (p + 8)"
      unfolding localsRead_def by blast
    have "offsetsRead B bits q
            (getSections (binaryObject st) @
             [newSection Symbols ''Symbol Table''
                (ucast (wordAt q 4 (offsetField bits p Symbols) :: quint32))
                (ucast (of_nat (entrySize bits * unat (symnum st)) :: quint32))
                (B + wordAt q 4 (offsetField bits p Symbols))])"
      using p by (intro offsetsRead_command o1) (simp_all add: offsetField_def commandOf_def)
    with readSymbolTable_at [OF True s(1)] p(3) show ?thesis
      by (simp add: addSection_def offsetField_def)
  next
    case False
    then have "symnum st = 0" by (simp add: word_gt_0)
    with s(1) o1 show ?thesis
      by (simp add: readSymbolTable_def ret_def)
  qed
  have o3: "offsetsRead B bits q (getSections b2)"
  proof (cases "0 < indirsymnum st")
    case True
    then have "indirsymnum st \<noteq> 0" by simp
    with loc obtain p where
      p: "p + 60 \<le> length (dev q)" "(wordAt q 4 p :: quint32) = 0xB"
        "indirsymoff st = wordAt q 4 (p + 56)"
      unfolding localsRead_def by blast
    have "offsetsRead B bits q
            (getSections b1 @
             [newSection DynSymbols ''Dynamic Symbol Table''
                (ucast (wordAt q 4 (offsetField bits p DynSymbols) :: quint32))
                (ucast (of_nat (4 * unat (indirsymnum st)) :: quint32))
                (B + wordAt q 4 (offsetField bits p DynSymbols))])"
      using p by (intro offsetsRead_command o2) (simp_all add: offsetField_def commandOf_def)
    with readDynSymbolTable_at [OF True s(2)] p(3) show ?thesis
      by (simp add: addSection_def offsetField_def)
  next
    case False
    then have "indirsymnum st = 0" by (simp add: word_gt_0)
    with s(2) o2 show ?thesis
      by (simp add: readDynSymbolTable_def ret_def)
  qed
  from s(4) have secs: "getSections b = secs"
    by (simp add: dynPass_fields)
  from fillSections_offsetsRead [OF s(3) o3] have o4: "offsetsRead B bits q (getSections b)"
    by (simp add: secs)
  from ensuresD [OF loadCommands_sameHeader l] ensuresD [OF finishHeader_sameHeader f]
  have hd: "getSystemBits b = bits" "isLittleEndian b = isLittleEndian (binaryObject st0)"
    by (simp_all add: sameHeader_def bits_def)
  from keepsDevD [OF keepsDev_readHeader h] have "dev q = dev r" .
  with o4 hd start show ?thesis
    by (simp add: r' offsetsRead_pos)
qed

text \<open>
  Claim C8, as amended. Every section of a decoded object goes back to a record of the
  slice: the text, stubs and C-string sections to a section record of the segment
  __TEXT, the other sections to the load command LC_SYMTAB, LC_DYSYMTAB,
  LC_FUNCTION_STARTS or LC_CODE_SIGNATURE. The file offset of the section is the sum of
  the base offset of the slice and the offset field of that record, taken modulo
  \<open>2^32\<close> as the addition of \<open>quint32\<close> does. So the file offset counts from the start
  of the whole input where that sum is below \<open>2^32\<close>, and only there. The bytes are
  those of the file that \<open>parseHeader\<close> is given, read in the byte order of the slice.
\<close>

theorem section_offsets_include_base:
  assumes "parseHeader B size' r = Inr (b, r')"
  shows "dev r' = dev r \<and> littleEndian r' = isLittleEndian b \<and>
         list_all
           (\<lambda>sec. \<exists>p. fromRecord (getSystemBits b) r' p sec \<and>
              unat (getOffset sec) =
                (unat B +
                 unat (wordAt r' 4 (offsetField (getSystemBits b) p (getType sec)) :: quint32))
                mod 2 ^ 32)
           (getSections b)"
proof -
  note a = parseHeader_offsetsRead [OF assms]
  have "unat (getOffset sec) = (unat B + unat w) mod 2 ^ 32"
    if "getOffset sec = B + w" for sec :: Section and w :: quint32
    unfolding that by (simp add: unat_word_ariths)
  with a show ?thesis
    unfolding offsetsRead_def list_all_iff by blast
qed

theorem section_offsets_include_base_witness:
  "parseHeader 28 0 (newReader True fatStubs) =
     Inr (fatStubsObject, \<lparr>dev = fatStubs, pos = 320, littleEndian = True\<rparr>) \<and>
   list_all2
     (\<lambda>p sec. fromRecord 32 \<lparr>dev = fatStubs, pos = 320, littleEndian = True\<rparr> p sec \<and>
        (wordAt \<lparr>dev = fatStubs, pos = 320, littleEndian = True\<rparr> 4
           (offsetField 32 p (getType sec)) :: quint32) + 28 = getOffset sec)
     [112, 180, 180, 204] (getSections fatStubsObject) \<and>
   map (\<lambda>sec. (getType sec, getOffset sec)) (getSections fatStubsObject) =
     [(SymbolStubs, 328), (String, 320), (Symbols, 284), (DynSymbols, 308)] \<and>
   list_all
     (\<lambda>sec. \<exists>p. fromRecord 32 \<lparr>dev = fatStubs, pos = 320, littleEndian = True\<rparr> p sec \<and>
        unat (getOffset sec) =
          (28 + unat (wordAt \<lparr>dev = fatStubs, pos = 320, littleEndian = True\<rparr> 4
                        (offsetField 32 p (getType sec)) :: quint32))
          mod 2 ^ 32)
     (getSections fatStubsObject)"
proof -
  let ?rd = "\<lparr>dev = fatStubs, pos = 320, littleEndian = True\<rparr>"
  have h: "parseHeader 28 0 (newReader True fatStubs) = Inr (fatStubsObject, ?rd)"
    by code_simp
  have m: "map (\<lambda>sec. (getType sec, getOffset sec)) (getSections fatStubsObject) =
     [(SymbolStubs, 328), (String, 320), (Symbols, 284), (DynSymbols, 308)]"
    by (simp add: fatStubsObject_def)
  have w: "list_all2
     (\<lambda>p sec. fromRecord 32 ?rd p sec \<and>
        (wordAt ?rd 4 (offsetField 32 p (getType sec)) :: quint32) + 28 = getOffset sec)
     [112, 180, 180, 204] (getSections fatStubsObject)"
    by code_simp
  have bits: "getSystemBits fatStubsObject = 32"
    by (simp add: fatStubsObject_def)
  from section_offsets_include_base [OF h]
  have "list_all
     (\<lambda>sec. \<exists>p. fromRecord 32 ?rd p sec \<and>
        unat (getOffset sec) =
          (28 + unat (wordAt ?rd 4 (offsetField 32 p (getType sec)) :: quint32)) mod 2 ^ 32)
     (getSections fatStubsObject)"
    by (simp add: bits)
  with h w m show ?thesis
    by (intro conjI)
qed

text \<open>
  The claim as stated fails: the slice of \<open>fatWrap\<close> is at the offset 28 and its
  LC_SYMTAB gives the string table the offset 0xFFFFFFF0. The String Table section
  gets the file offset 12, which is not the sum of the two, and its content is loaded
  from the position 12, in the directory of the universal binary.
\<close>

theorem section_offset_wraps:
  "parse True (Some fatWrap) [] = Returned True [fatWrapObject] \<and>
   parseHeader 28 0 (newReader True fatWrap) =
     Inr (fatWrapObject, \<lparr>dev = fatWrap, pos = 16, littleEndian = True\<rparr>) \<and>
   map (\<lambda>sec. (getType sec, getOffset sec)) (getSections fatWrapObject) = [(String, 12)] \<and>
   (wordAt \<lparr>dev = fatWrap, pos = 16, littleEndian = True\<rparr> 4 72 :: quint32) = 0xFFFFFFF0 \<and>
   unat (12 :: quint32) \<noteq> 28 + unat (0xFFFFFFF0 :: quint32)"
proof -
  have a: "parse True (Some fatWrap) [] = Returned True [fatWrapObject]"
    by code_simp
  have b: "parseHeader 28 0 (newReader True fatWrap) =
     Inr (fatWrapObject, \<lparr>dev = fatWrap, pos = 16, littleEndian = True\<rparr>)"
    by code_simp
  have c: "map (\<lambda>sec. (getType sec, getOffset sec)) (getSections fatWrapObject) = [(String, 12)]"
    by (simp add: fatWrapObject_def)
  have d: "(wordAt \<lparr>dev = fatWrap, pos = 16, littleEndian = True\<rparr> 4 72 :: quint32) = 0xFFFFFFF0"
    by code_simp
  have e: "unat (12 :: quint32) \<noteq> 28 + unat (0xFFFFFFF0 :: quint32)"
    by simp
  from a b c d e show ?thesis
    by (intro conjI)
qed

section \<open>Steps with defined behaviour\<close>



































section \<open>Two runs of the decoder\<close>




end
